theory Spec2Isabelle
  imports Complex_Main "HOL-Library.Word" "HOL-Library.Monad_Syntax"
begin

unbundle bit_operations_syntax

section \<open>Machine integers\<close>

text \<open>
  The kernel computes on \<open>PVG_FT_Fixed\<close>, \<open>PVG_FT_Pos\<close> and
  \<open>PVG_FT_Angle\<close> values with 64-bit intermediates (\<open>PVG_FT_Int64\<close>,
  \<open>PVG_FT_UInt64\<close>).  Values are modelled as \<open>int\<close>; an operation whose mathematical
  result can leave the representable range is followed by the two's complement
  wrap-around of its width.  An operation that cannot leave the range for 32-bit
  operands (a product of two 32-bit values held in 64 bits, an angle moved towards
  zero) is written without it.  \<open>>>\<close> on a signed value is the arithmetic shift,
  \<open>v div 2 ^ n\<close>; \<open>/\<close> on signed values truncates towards zero.
\<close>

text \<open>
  Modelled from the spec: the typedefs of \<open>plutovg-ft-types.h\<close> are missing from the
  sources.  The spec's data model fixes a fixed-point scalar, an angle and a vector
  coordinate as signed 32-bit integers.
\<close>

definition in32 :: "int \<Rightarrow> bool" where
  "in32 v \<longleftrightarrow> - 2147483648 \<le> v \<and> v \<le> 2147483647"

definition wrap32 :: "int \<Rightarrow> int" where
  "wrap32 v = (v + 2147483648) mod 4294967296 - 2147483648"

definition wrap64 :: "int \<Rightarrow> int" where
  "wrap64 v = (v + 9223372036854775808) mod 18446744073709551616 - 9223372036854775808"

definition to_u32 :: "int \<Rightarrow> int" where
  "to_u32 v = v mod 4294967296"

definition to_u64 :: "int \<Rightarrow> int" where
  "to_u64 v = v mod 18446744073709551616"

definition c_div :: "int \<Rightarrow> int \<Rightarrow> int" where
  "c_div a b = sgn a * sgn b * (\<bar>a\<bar> div \<bar>b\<bar>)"

definition PVG_FT_ABS :: "int \<Rightarrow> int" where
  "PVG_FT_ABS a = (if a < 0 then wrap32 (- a) else a)"

section \<open>Fixed-point arithmetic primitives\<close>

text \<open>
  The arithmetic primitives compute on \<open>PVG_FT_Long\<close>, the \<open>long\<close> of the platform,
  with \<open>PVG_FT_Int64\<close> and \<open>PVG_FT_UInt64\<close> intermediates.  The width of \<open>long\<close> is
  not fixed by the sources (32 bits on some platforms, 64 on others): it is the
  parameter \<open>w\<close> of the model.  A signed operation whose result is not representable
  is undefined in C; the model returns \<open>None\<close> there.  Unsigned arithmetic wraps
  around, and a conversion to \<open>PVG_FT_Long\<close> keeps the low \<open>w\<close> bits.
\<close>

definition long_min :: "nat \<Rightarrow> int" where
  "long_min w = - (2 ^ (w - 1))"

definition in_long :: "nat \<Rightarrow> int \<Rightarrow> bool" where
  "in_long w v \<longleftrightarrow> long_min w \<le> v \<and> v < 2 ^ (w - 1)"

definition to_long :: "nat \<Rightarrow> int \<Rightarrow> int" where
  "to_long w v = (v + 2 ^ (w - 1)) mod 2 ^ w - 2 ^ (w - 1)"

definition neg_long :: "nat \<Rightarrow> int \<Rightarrow> int option" where
  "neg_long w v = (if v = long_min w then None else Some (- v))"

definition in64 :: "int \<Rightarrow> int option" where
  "in64 v = (if - 9223372036854775808 \<le> v \<and> v \<le> 9223372036854775807 then Some v else None)"

text \<open>\<open>PVG_FT_MOVE_SIGN(x, s)\<close> updates both of its arguments; the model returns the pair.\<close>

definition PVG_FT_MOVE_SIGN :: "nat \<Rightarrow> int \<times> int \<Rightarrow> (int \<times> int) option" where
  "PVG_FT_MOVE_SIGN w xs =
     (case xs of (x, s) \<Rightarrow>
        if x < 0 then do { x' \<leftarrow> neg_long w x; Some (x', - s) } else Some (x, s))"

definition PVG_FT_MulDiv :: "nat \<Rightarrow> int \<Rightarrow> int \<Rightarrow> int \<Rightarrow> int option" where
  "PVG_FT_MulDiv w a0 b0 c0 = do {
     (a, s1) \<leftarrow> PVG_FT_MOVE_SIGN w (a0, 1);
     (b, s2) \<leftarrow> PVG_FT_MOVE_SIGN w (b0, s1);
     (c, s) \<leftarrow> PVG_FT_MOVE_SIGN w (c0, s2);
     v \<leftarrow> (if c > 0
           then do { p \<leftarrow> in64 (a * b); n \<leftarrow> in64 (p + c div 2); Some (c_div n c) }
           else Some 2147483647);
     let d = to_long w v;
     if s > 0 then Some d else neg_long w d
   }"

definition PVG_FT_DivFix :: "nat \<Rightarrow> int \<Rightarrow> int \<Rightarrow> int option" where
  "PVG_FT_DivFix w a0 b0 = do {
     (a, s1) \<leftarrow> PVG_FT_MOVE_SIGN w (a0, 1);
     (b, s) \<leftarrow> PVG_FT_MOVE_SIGN w (b0, s1);
     let q = to_long w (if b > 0
                        then to_u64 (to_u64 (to_u64 a * 65536) + to_u64 (b div 2)) div to_u64 b
                        else 2147483647);
     if s < 0 then neg_long w q else Some q
   }"

section \<open>Angles\<close>

definition PVG_FT_ANGLE_PI :: int where "PVG_FT_ANGLE_PI = 11796480"
definition PVG_FT_ANGLE_2PI :: int where "PVG_FT_ANGLE_2PI = PVG_FT_ANGLE_PI * 2"
definition PVG_FT_ANGLE_PI2 :: int where "PVG_FT_ANGLE_PI2 = PVG_FT_ANGLE_PI div 2"
definition PVG_FT_ANGLE_PI4 :: int where "PVG_FT_ANGLE_PI4 = PVG_FT_ANGLE_PI div 4"

lemmas angle_defs =
  PVG_FT_ANGLE_PI_def PVG_FT_ANGLE_2PI_def PVG_FT_ANGLE_PI2_def PVG_FT_ANGLE_PI4_def

text \<open>The two normalisation loops of \<open>PVG_FT_Angle_Diff\<close>.\<close>

function angle_diff_up :: "int \<Rightarrow> int" where
  "angle_diff_up delta =
     (if delta \<le> - PVG_FT_ANGLE_PI then angle_diff_up (delta + PVG_FT_ANGLE_2PI) else delta)"
  by pat_completeness auto
termination
  by (relation "measure (\<lambda>delta. nat (- delta))") (auto simp: angle_defs)

declare angle_diff_up.simps [simp del]

function angle_diff_down :: "int \<Rightarrow> int" where
  "angle_diff_down delta =
     (if delta > PVG_FT_ANGLE_PI then angle_diff_down (delta - PVG_FT_ANGLE_2PI) else delta)"
  by pat_completeness auto
termination
  by (relation "measure (\<lambda>delta. nat delta)") (auto simp: angle_defs)

declare angle_diff_down.simps [simp del]

definition PVG_FT_Angle_Diff :: "int \<Rightarrow> int \<Rightarrow> int" where
  "PVG_FT_Angle_Diff angle1 angle2 = angle_diff_down (angle_diff_up (wrap32 (angle2 - angle1)))"

section \<open>The CORDIC engine\<close>

record PVG_FT_Vector =
  vec_x :: int
  vec_y :: int

definition PVG_FT_TRIG_SCALE :: int where "PVG_FT_TRIG_SCALE = 3688454934"
definition PVG_FT_TRIG_SAFE_MSB :: int where "PVG_FT_TRIG_SAFE_MSB = 29"
definition PVG_FT_TRIG_MAX_ITERS :: nat where "PVG_FT_TRIG_MAX_ITERS = 23"

definition ft_trig_arctan_table :: "int list" where
  "ft_trig_arctan_table =
     [1740967, 919879, 466945, 234379, 117304, 58666, 29335, 14668,
      7334, 3667, 1833, 917, 458, 229, 115, 57,
      29, 14, 7, 4, 2, 1]"

definition ft_trig_downscale :: "int \<Rightarrow> int" where
  "ft_trig_downscale val0 =
     (let s = val0;
          val = PVG_FT_ABS val0;
          v = wrap64 (val * PVG_FT_TRIG_SCALE + 4294967296);
          val = wrap32 (v div 4294967296)
      in if s \<ge> 0 then val else wrap32 (- val))"

text \<open>The portable \<open>clz\<close> of the source, on an unsigned 32-bit argument.\<close>

definition clz :: "int \<Rightarrow> int" where
  "clz x0 =
     (if x0 = 0 then 32
      else
        let (n, x) = (0, x0);
            (n, x) = (if x \<le> 65535 then (n + 16, to_u32 (x * 65536)) else (n, x));
            (n, x) = (if x \<le> 16777215 then (n + 8, to_u32 (x * 256)) else (n, x));
            (n, x) = (if x \<le> 268435455 then (n + 4, to_u32 (x * 16)) else (n, x));
            (n, x) = (if x \<le> 1073741823 then (n + 2, to_u32 (x * 4)) else (n, x));
            n = (if x \<le> 2147483647 then n + 1 else n)
        in n)"

definition PVG_FT_MSB :: "int \<Rightarrow> int" where
  "PVG_FT_MSB x = 31 - clz (to_u32 x)"

text \<open>\<open>ft_trig_prenorm\<close> updates the vector in place and returns the shift.\<close>

definition ft_trig_prenorm :: "PVG_FT_Vector \<Rightarrow> PVG_FT_Vector \<times> int" where
  "ft_trig_prenorm vec =
     (let x = vec_x vec;
          y = vec_y vec;
          shift = PVG_FT_MSB (PVG_FT_ABS x OR PVG_FT_ABS y)
      in if shift \<le> PVG_FT_TRIG_SAFE_MSB
         then let shift = PVG_FT_TRIG_SAFE_MSB - shift
              in (\<lparr>vec_x = wrap32 (to_u32 x * 2 ^ nat shift),
                   vec_y = wrap32 (to_u32 y * 2 ^ nat shift)\<rparr>, shift)
         else let shift = shift - PVG_FT_TRIG_SAFE_MSB
              in (\<lparr>vec_x = x div 2 ^ nat shift, vec_y = y div 2 ^ nat shift\<rparr>, - shift))"

text \<open>The quarter-turn loops of \<open>ft_trig_pseudo_rotate\<close>, on the state \<open>(x, y, theta)\<close>.\<close>

function rotate_up :: "int \<times> int \<times> int \<Rightarrow> int \<times> int \<times> int" where
  "rotate_up (x, y, theta) =
     (if theta < - PVG_FT_ANGLE_PI4
      then rotate_up (y, wrap32 (- x), theta + PVG_FT_ANGLE_PI2)
      else (x, y, theta))"
  by pat_completeness auto
termination
  by (relation "measure (\<lambda>(x, y, theta). nat (- theta))") (auto simp: angle_defs)

declare rotate_up.simps [simp del]

function rotate_down :: "int \<times> int \<times> int \<Rightarrow> int \<times> int \<times> int" where
  "rotate_down (x, y, theta) =
     (if theta > PVG_FT_ANGLE_PI4
      then rotate_down (wrap32 (- y), x, theta - PVG_FT_ANGLE_PI2)
      else (x, y, theta))"
  by pat_completeness auto
termination
  by (relation "measure (\<lambda>(x, y, theta). nat theta)") (auto simp: angle_defs)

declare rotate_down.simps [simp del]

text \<open>
  The pseudo-rotation loop: \<open>i\<close> counts from 1, \<open>b\<close> is \<open>2 ^ (i - 1)\<close>, and the table
  pointer, which starts at the first entry and moves with \<open>i\<close>, is the index \<open>i - 1\<close>.
\<close>

function rotate_loop :: "nat \<Rightarrow> int \<Rightarrow> int \<times> int \<times> int \<Rightarrow> int \<times> int \<times> int" where
  "rotate_loop i b (x, y, theta) =
     (if i < PVG_FT_TRIG_MAX_ITERS
      then let v1 = wrap32 (y + b) div 2 ^ i;
               v2 = wrap32 (x + b) div 2 ^ i
           in if theta < 0
              then rotate_loop (i + 1) (b * 2)
                     (wrap32 (x + v1), wrap32 (y - v2), theta + ft_trig_arctan_table ! (i - 1))
              else rotate_loop (i + 1) (b * 2)
                     (wrap32 (x - v1), wrap32 (y + v2), theta - ft_trig_arctan_table ! (i - 1))
      else (x, y, theta))"
  by pat_completeness auto
termination
  by (relation "measure (\<lambda>(i, b, s). PVG_FT_TRIG_MAX_ITERS - i)") auto

declare rotate_loop.simps [simp del]

definition ft_trig_pseudo_rotate :: "PVG_FT_Vector \<Rightarrow> int \<Rightarrow> PVG_FT_Vector" where
  "ft_trig_pseudo_rotate vec theta =
     (case rotate_loop 1 1 (rotate_down (rotate_up (vec_x vec, vec_y vec, theta))) of
        (x, y, t) \<Rightarrow> \<lparr>vec_x = x, vec_y = y\<rparr>)"

text \<open>The octant reduction of \<open>ft_trig_pseudo_polarize\<close>.\<close>

definition polarize_sector :: "int \<times> int \<Rightarrow> int \<times> int \<times> int" where
  "polarize_sector xy =
     (case xy of (x, y) \<Rightarrow>
        if y > x
        then if y > wrap32 (- x)
             then (y, wrap32 (- x), PVG_FT_ANGLE_PI2)
             else (wrap32 (- x), wrap32 (- y),
                   if y > 0 then PVG_FT_ANGLE_PI else - PVG_FT_ANGLE_PI)
        else if y < wrap32 (- x)
             then (wrap32 (- y), x, - PVG_FT_ANGLE_PI2)
             else (x, y, 0))"

function polarize_loop :: "nat \<Rightarrow> int \<Rightarrow> int \<times> int \<times> int \<Rightarrow> int \<times> int \<times> int" where
  "polarize_loop i b (x, y, theta) =
     (if i < PVG_FT_TRIG_MAX_ITERS
      then let v1 = wrap32 (y + b) div 2 ^ i;
               v2 = wrap32 (x + b) div 2 ^ i
           in if y > 0
              then polarize_loop (i + 1) (b * 2)
                     (wrap32 (x + v1), wrap32 (y - v2), theta + ft_trig_arctan_table ! (i - 1))
              else polarize_loop (i + 1) (b * 2)
                     (wrap32 (x - v1), wrap32 (y + v2), theta - ft_trig_arctan_table ! (i - 1))
      else (x, y, theta))"
  by pat_completeness auto
termination
  by (relation "measure (\<lambda>(i, b, s). PVG_FT_TRIG_MAX_ITERS - i)") auto

declare polarize_loop.simps [simp del]

definition PVG_FT_PAD_FLOOR :: "int \<Rightarrow> int \<Rightarrow> int" where
  "PVG_FT_PAD_FLOOR x n = x AND NOT (n - 1)"

definition PVG_FT_PAD_ROUND :: "int \<Rightarrow> int \<Rightarrow> int" where
  "PVG_FT_PAD_ROUND x n = PVG_FT_PAD_FLOOR (x + c_div n 2) n"

definition round_theta :: "int \<Rightarrow> int" where
  "round_theta theta =
     (if theta \<ge> 0 then PVG_FT_PAD_ROUND theta 32 else - PVG_FT_PAD_ROUND (- theta) 32)"

text \<open>On return, \<open>vec->x\<close> holds the length and \<open>vec->y\<close> the angle.\<close>

definition ft_trig_pseudo_polarize :: "PVG_FT_Vector \<Rightarrow> PVG_FT_Vector" where
  "ft_trig_pseudo_polarize vec =
     (case polarize_loop 1 1 (polarize_sector (vec_x vec, vec_y vec)) of
        (x, y, theta) \<Rightarrow> \<lparr>vec_x = x, vec_y = round_theta theta\<rparr>)"

section \<open>The public API\<close>

definition PVG_FT_Cos :: "int \<Rightarrow> int" where
  "PVG_FT_Cos angle =
     (let v = ft_trig_pseudo_rotate \<lparr>vec_x = PVG_FT_TRIG_SCALE div 2 ^ 8, vec_y = 0\<rparr> angle
      in wrap32 (vec_x v + 128) div 2 ^ 8)"

definition PVG_FT_Sin :: "int \<Rightarrow> int" where
  "PVG_FT_Sin angle = PVG_FT_Cos (wrap32 (PVG_FT_ANGLE_PI2 - angle))"

definition PVG_FT_Atan2 :: "int \<Rightarrow> int \<Rightarrow> int" where
  "PVG_FT_Atan2 dx dy =
     (if dx = 0 \<and> dy = 0 then 0
      else vec_y (ft_trig_pseudo_polarize (fst (ft_trig_prenorm \<lparr>vec_x = dx, vec_y = dy\<rparr>))))"


text \<open>
  \<open>PVG_FT_Vector_Polarize\<close> writes through the pointers \<open>length\<close> and \<open>angle\<close>; the
  model takes the values stored there before the call and returns the values stored
  there after it.
\<close>

definition PVG_FT_Vector_Polarize :: "PVG_FT_Vector \<Rightarrow> int \<times> int \<Rightarrow> int \<times> int" where
  "PVG_FT_Vector_Polarize vec out =
     (if vec_x vec = 0 \<and> vec_y vec = 0 then out
      else
        let (v, shift) = ft_trig_prenorm vec;
            v = ft_trig_pseudo_polarize v;
            vx = ft_trig_downscale (vec_x v)
        in (if shift \<ge> 0 then vx div 2 ^ nat shift
            else wrap32 (to_u32 vx * 2 ^ nat (- shift)),
            vec_y v))"


section \<open>The contracts in the words of the specification\<close>

text \<open>
  The net sign of a list of operands: positive when an even number of them is negative.
\<close>

definition net_sign :: "int list \<Rightarrow> int" where
  "net_sign vs = (if even (length (filter (\<lambda>v. v < 0) vs)) then 1 else - 1)"

text \<open>
  The magnitude of a rounded fixed-point quotient, \<open>round (|a| * 65536 / |b|)\<close> with
  halves rounded up.
\<close>

definition divfix_magnitude :: "int \<Rightarrow> int \<Rightarrow> int" where
  "divfix_magnitude a b = (\<bar>a\<bar> * 65536 + \<bar>b\<bar> div 2) div \<bar>b\<bar>"

text \<open>
  An angle reduced into the half-open interval \<open>(-180, 180]\<close> degrees: the one value
  of that interval that differs from \<open>theta\<close> by a multiple of the full turn.
\<close>

definition angle_reduce :: "int \<Rightarrow> int" where
  "angle_reduce theta = PVG_FT_ANGLE_PI - (PVG_FT_ANGLE_PI - theta) mod PVG_FT_ANGLE_2PI"

text \<open>
  The pseudo-rotation as the specification describes it.  Step 1: quarter-turns of the
  vector while the angle exceeds 45 degrees in either direction.  Step 2: for each \<open>i\<close>
  a micro-rotation whose direction \<open>d\<close> is the sign of the remaining angle and whose
  angle is the \<open>i\<close>-th table entry.  \<open>cordic_rotate n\<close> runs the micro-rotations
  \<open>1, \<dots>, n\<close>.
\<close>

function quarter_turns :: "int \<times> int \<times> int \<Rightarrow> int \<times> int \<times> int" where
  "quarter_turns (x, y, theta) =
     (if theta < - PVG_FT_ANGLE_PI4
      then quarter_turns (y, wrap32 (- x), theta + PVG_FT_ANGLE_PI2)
      else if theta > PVG_FT_ANGLE_PI4
      then quarter_turns (wrap32 (- y), x, theta - PVG_FT_ANGLE_PI2)
      else (x, y, theta))"
  by pat_completeness auto
termination
  by (relation "measure (\<lambda>(x, y, theta). nat \<bar>theta\<bar>)") (auto simp: angle_defs)

declare quarter_turns.simps [simp del]

definition micro_rotation :: "nat \<Rightarrow> int \<times> int \<times> int \<Rightarrow> int \<times> int \<times> int" where
  "micro_rotation i s =
     (case s of (x, y, theta) \<Rightarrow>
        let d = (if theta < 0 then - 1 else 1);
            v1 = wrap32 (y + 2 ^ (i - 1)) div 2 ^ i;
            v2 = wrap32 (x + 2 ^ (i - 1)) div 2 ^ i
        in (wrap32 (x - d * v1), wrap32 (y + d * v2),
            theta - d * ft_trig_arctan_table ! (i - 1)))"

definition cordic_rotate :: "nat \<Rightarrow> PVG_FT_Vector \<Rightarrow> int \<Rightarrow> PVG_FT_Vector" where
  "cordic_rotate n vec theta =
     (case foldl (\<lambda>s i. micro_rotation i s) (quarter_turns (vec_x vec, vec_y vec, theta))
             [1..<Suc n] of
        (x, y, t) \<Rightarrow> \<lparr>vec_x = x, vec_y = y\<rparr>)"




section \<open>Quantities of the error analysis\<close>

text \<open>
  The first \<open>k\<close> terms of the arctangent series, which bracket \<open>arctan x\<close> for
  \<open>0 < x \<le> 1\<close>.
\<close>

fun atn_poly :: "nat \<Rightarrow> real \<Rightarrow> real" where
  "atn_poly 0 x = 0"
| "atn_poly (Suc k) x = atn_poly k x + (- 1) ^ k * (1 / real (k * 2 + 1) * x ^ (k * 2 + 1))"

text \<open>
  The exact angle of the \<open>i\<close>-th micro-rotation, \<open>arctan (2^-i)\<close>, in angle units
  (degrees times \<open>2^16\<close>; \<open>180 * 2^16 = 11796480\<close> units are \<open>pi\<close> radians), and a
  bound on the distance of each table entry from it.
\<close>

definition alpha :: "nat \<Rightarrow> real" where
  "alpha i = 11796480 * arctan (1 / 2 ^ i) / pi"

definition cordic_eps :: "real list" where
  "cordic_eps = [0.2, 0.26, 0.08, 0.36, 0.42, 0.11, 0.16, 0.36, 0.15, 0.08, 0.47, 0.27, 0.37, 0.19, 0.41, 0.3, 0.36, 0.33, 0.17, 0.42, 0.21, 0.11]"

text \<open>
  The gain of the first \<open>n\<close> micro-rotations, the sum of the first \<open>n\<close> table errors,
  and the bound on the remaining angle after \<open>n\<close> micro-rotations.
\<close>

fun gain_sq :: "nat \<Rightarrow> real" where
  "gain_sq 0 = 1"
| "gain_sq (Suc n) = gain_sq n * (1 + 1 / 4 ^ Suc n)"

definition gain :: "nat \<Rightarrow> real" where
  "gain n = sqrt (gain_sq n)"

definition eps_sum :: "nat \<Rightarrow> real" where
  "eps_sum n = sum_list (take n cordic_eps)"

definition theta_bound :: "nat \<Rightarrow> int" where
  "theta_bound n = sum_list (drop n ft_trig_arctan_table) + 1"

text \<open>
  One iteration of the vectoring loop of \<open>ft_trig_pseudo_polarize\<close> as a function of
  the state, the angle of a vector in angle units, and the bound on that angle after
  \<open>n\<close> iterations.
\<close>

definition micro_polarize :: "nat \<Rightarrow> int \<times> int \<times> int \<Rightarrow> int \<times> int \<times> int" where
  "micro_polarize i s =
     (case s of (x, y, theta) \<Rightarrow>
        let d = (if y > 0 then 1 else - 1);
            v1 = wrap32 (y + 2 ^ (i - 1)) div 2 ^ i;
            v2 = wrap32 (x + 2 ^ (i - 1)) div 2 ^ i
        in (wrap32 (x + d * v1), wrap32 (y - d * v2),
            theta + d * ft_trig_arctan_table ! (i - 1)))"

definition ang_units :: "int \<Rightarrow> int \<Rightarrow> real" where
  "ang_units x y = arctan (real_of_int y / real_of_int x) * 11796480 / pi"

definition pol_bound :: "nat \<Rightarrow> real" where
  "pol_bound n = 6 + real_of_int (theta_bound n - 1) - (eps_sum 22 - eps_sum n)
                 - (22 - real n) * (7 / 1000)"

section \<open>Wrap-around\<close>

lemma wrap32_id: "in32 v \<Longrightarrow> wrap32 v = v"
  by (simp add: in32_def wrap32_def)

lemma wrap32_consts:
  "wrap32 2147483648 = - 2147483648"
  "wrap32 2147483647 = 2147483647"
  "wrap32 (- 2147483647) = - 2147483647"
  "wrap32 0 = 0"
  by (simp_all add: wrap32_def)

lemma to_u64_id: "0 \<le> v \<Longrightarrow> v < 18446744073709551616 \<Longrightarrow> to_u64 v = v"
  by (simp add: to_u64_def)

section \<open>Values of type \<open>PVG_FT_Long\<close>\<close>

lemma long_pow: "1 \<le> w \<Longrightarrow> (2::int) ^ w = 2 * 2 ^ (w - 1)"
  by (cases w) simp_all

lemma to_long_id:
  assumes "1 \<le> w" "in_long w v"
  shows "to_long w v = v"
  using assms(2) unfolding in_long_def long_min_def to_long_def long_pow [OF assms(1)]
  by simp

lemma long_32:
  assumes "32 \<le> w"
  shows "(2147483648::int) \<le> 2 ^ (w - 1)"
proof -
  have "(2::int) ^ 31 \<le> 2 ^ (w - 1)"
    using assms by (intro power_increasing) simp_all
  then show ?thesis by simp
qed

lemma to_long_max:
  assumes "32 \<le> w"
  shows "to_long w 2147483647 = 2147483647"
  using long_32 [OF assms] assms by (intro to_long_id) (simp_all add: in_long_def long_min_def)

lemma long_min_neg: "long_min w < 0"
  by (simp add: long_min_def)

lemma neg_long_nonneg: "0 \<le> v \<Longrightarrow> neg_long w v = Some (- v)"
  using long_min_neg [of w] by (simp add: neg_long_def)

lemma MOVE_SIGN_abs:
  assumes "x \<noteq> long_min w"
  shows "PVG_FT_MOVE_SIGN w (x, s) = Some (\<bar>x\<bar>, if x < 0 then - s else s)"
  using assms by (simp add: PVG_FT_MOVE_SIGN_def neg_long_def)

lemma MOVE_SIGN_zero: "PVG_FT_MOVE_SIGN w (0, s) = Some (0, s)"
  by (simp add: PVG_FT_MOVE_SIGN_def)

lemma MOVE_SIGN_nonpositive:
  assumes "PVG_FT_MOVE_SIGN w (c, s) = Some (c', s')"
  shows "c' \<le> 0 \<longleftrightarrow> c = 0"
  using assms by (auto simp: PVG_FT_MOVE_SIGN_def neg_long_def split: if_splits)

section \<open>MulDiv\<close>

text \<open>
  C5, as stated, fails: with the divisor zero and one negative operand the result is
  \<open>-0x7FFFFFFF\<close>, not \<open>0x7FFFFFFF\<close>, whatever the width of \<open>PVG_FT_Long\<close>.
\<close>

theorem MulDiv_degenerate_counterexample:
  "PVG_FT_MulDiv 32 (- 1) 1 0 = Some (- 2147483647)
   \<and> PVG_FT_MulDiv 64 (- 1) 1 0 = Some (- 2147483647)"
  by code_simp

text \<open>
  C5 (amended): for the divisor zero (the one divisor that sign extraction leaves
  non-positive, see \<open>MOVE_SIGN_nonpositive\<close>) and all operands \<open>a\<close> and \<open>b\<close> whose sign
  extraction is defined, \<open>PVG_FT_MulDiv a b 0\<close> raises no error and returns the saturated
  magnitude \<open>0x7FFFFFFF\<close> carrying the net sign of \<open>a\<close> and \<open>b\<close>: \<open>0x7FFFFFFF\<close> when
  none or both of them are negative, \<open>-0x7FFFFFFF\<close> when exactly one is.  This holds for
  every width of \<open>PVG_FT_Long\<close> from 32 bits on.
\<close>

theorem MulDiv_degenerate:
  assumes "32 \<le> w" and "a \<noteq> long_min w" and "b \<noteq> long_min w"
  shows "PVG_FT_MulDiv w a b 0 = Some (net_sign [a, b] * 2147483647)"
  using assms(2,3)
  by (simp add: PVG_FT_MulDiv_def MOVE_SIGN_abs MOVE_SIGN_zero to_long_max [OF assms(1)]
      neg_long_nonneg net_sign_def)

theorem MulDiv_degenerate_witness:
  "PVG_FT_MulDiv 32 (- 3) 5 0 = Some (- 2147483647)
   \<and> PVG_FT_MulDiv 64 3 (- 5) 0 = Some (- 2147483647)
   \<and> PVG_FT_MulDiv 64 (- 3) (- 5) 0 = Some 2147483647
   \<and> PVG_FT_MulDiv 32 3 5 0 = Some 2147483647"
  using MulDiv_degenerate [of 32 "- 3" 5] MulDiv_degenerate [of 64 3 "- 5"]
    MulDiv_degenerate [of 64 "- 3" "- 5"] MulDiv_degenerate [of 32 3 5]
  by (simp add: net_sign_def long_min_def)

section \<open>DivFix\<close>

lemma round_div:
  fixes n b :: int
  assumes "0 < b"
  shows "(n + b div 2) div b = \<lfloor>real_of_int n / real_of_int b + 1 / 2\<rfloor>"
proof -
  have "real_of_int n / real_of_int b + 1 / 2 = real_of_int (2 * n + b) / real_of_int (2 * b)"
    using assms by (simp add: field_simps)
  then have "\<lfloor>real_of_int n / real_of_int b + 1 / 2\<rfloor> = (2 * n + b) div (2 * b)"
    by (simp only: floor_divide_of_int_eq)
  also have "\<dots> = ((2 * n + b) div 2) div b"
    using assms by (intro zdiv_zmult2_eq) simp
  also have "(2 * n + b) div 2 = n + b div 2"
    by simp
  finally show ?thesis by simp
qed

lemma divfix_magnitude_round:
  assumes "b \<noteq> 0"
  shows "divfix_magnitude a b = \<lfloor>real_of_int (\<bar>a\<bar> * 65536) / real_of_int \<bar>b\<bar> + 1 / 2\<rfloor>"
  unfolding divfix_magnitude_def using assms by (intro round_div) simp

lemma DivFix_unsigned:
  assumes "0 \<le> a" "a \<le> 2147483648" "0 < b" "b \<le> 2147483648"
  shows "to_u64 (to_u64 (to_u64 a * 65536) + to_u64 (b div 2)) div to_u64 b
         = (a * 65536 + b div 2) div b"
proof -
  have 1: "to_u64 a = a" using assms by (intro to_u64_id) auto
  have 2: "to_u64 (a * 65536) = a * 65536" using assms by (intro to_u64_id) auto
  have 3: "to_u64 (b div 2) = b div 2" using assms by (intro to_u64_id) auto
  have 4: "to_u64 (a * 65536 + b div 2) = a * 65536 + b div 2"
    using assms by (intro to_u64_id) auto
  have 5: "to_u64 b = b" using assms by (intro to_u64_id) auto
  show ?thesis by (simp only: 1 2 3 4 5)
qed

lemma DivFix_zero_divisor:
  assumes "32 \<le> w" "a \<noteq> long_min w"
  shows "PVG_FT_DivFix w a 0 = Some (if a < 0 then - 2147483647 else 2147483647)"
  using assms(2)
  by (simp add: PVG_FT_DivFix_def MOVE_SIGN_abs MOVE_SIGN_zero to_long_max [OF assms(1)]
      neg_long_nonneg)

lemma DivFix_general:
  assumes w: "32 \<le> w" and a: "in32 a" "a \<noteq> long_min w"
    and b: "in32 b" "b \<noteq> long_min w" "b \<noteq> 0"
    and q: "divfix_magnitude a b < 2 ^ (w - 1)"
  shows "PVG_FT_DivFix w a b = Some (sgn a * sgn b * divfix_magnitude a b)"
proof -
  have bnd: "0 \<le> \<bar>a\<bar>" "\<bar>a\<bar> \<le> 2147483648" "0 < \<bar>b\<bar>" "\<bar>b\<bar> \<le> 2147483648"
    using a b by (auto simp: in32_def)
  have m0: "0 \<le> divfix_magnitude a b"
    unfolding divfix_magnitude_def using bnd by (intro pos_imp_zdiv_nonneg_iff [THEN iffD2]) auto
  have "in_long w (divfix_magnitude a b)"
    using q m0 long_min_neg [of w] by (simp add: in_long_def)
  then have tl: "to_long w (divfix_magnitude a b) = divfix_magnitude a b"
    using w by (intro to_long_id) simp_all
  have u: "to_u64 (to_u64 (to_u64 \<bar>a\<bar> * 65536) + to_u64 (\<bar>b\<bar> div 2)) div to_u64 \<bar>b\<bar>
      = divfix_magnitude a b"
    unfolding divfix_magnitude_def by (rule DivFix_unsigned [OF bnd])
  have "PVG_FT_DivFix w a b =
      (if (if b < 0 then - (if a < 0 then - 1 else 1) else (if a < 0 then - 1 else (1::int))) < 0
       then Some (- divfix_magnitude a b) else Some (divfix_magnitude a b))"
    using bnd(3) m0
    by (simp add: PVG_FT_DivFix_def MOVE_SIGN_abs [OF a(2)] MOVE_SIGN_abs [OF b(2)] u tl
        neg_long_nonneg)
  also have "\<dots> = Some (sgn a * sgn b * divfix_magnitude a b)"
    using b(3) m0 by (cases "a = 0") (auto simp: sgn_if divfix_magnitude_def)
  finally show ?thesis .
qed

text \<open>
  C6: for 32-bit operands \<open>a\<close> and \<open>b\<close> whose sign extraction is defined,
  \<open>DivFix(a, 0)\<close> is the saturated magnitude \<open>0x7FFFFFFF\<close> with the sign of \<open>a\<close>;
  \<open>DivFix(0, b)\<close> is 0 for every non-zero \<open>b\<close>; and for every non-zero \<open>b\<close> the result,
  when it is representable in \<open>PVG_FT_Long\<close>, is \<open>round (a * 65536 / b)\<close>: the magnitude
  \<open>|a| * 65536 / |b|\<close> rounded to the nearest integer, halves upwards, with the sign
  of \<open>a\<close> times that of \<open>b\<close>.  This holds for every width of \<open>PVG_FT_Long\<close> from 32 bits
  on; with 64 bits every 32-bit operand qualifies and every result is representable.
\<close>

theorem DivFix_contract:
  assumes "32 \<le> w" and "in32 a" and "in32 b" and "a \<noteq> long_min w" and "b \<noteq> long_min w"
  shows "(b = 0 \<longrightarrow>
            PVG_FT_DivFix w a b = Some (if a < 0 then - 2147483647 else 2147483647))
    \<and> (a = 0 \<and> b \<noteq> 0 \<longrightarrow> PVG_FT_DivFix w a b = Some 0)
    \<and> (b \<noteq> 0 \<and> divfix_magnitude a b < 2 ^ (w - 1) \<longrightarrow>
        PVG_FT_DivFix w a b = Some (sgn a * sgn b * divfix_magnitude a b)
        \<and> divfix_magnitude a b
            = \<lfloor>real_of_int (\<bar>a\<bar> * 65536) / real_of_int \<bar>b\<bar> + 1 / 2\<rfloor>)"
proof (intro conjI impI)
  assume "b = 0"
  then show "PVG_FT_DivFix w a b = Some (if a < 0 then - 2147483647 else 2147483647)"
    using assms(1,4) by (simp add: DivFix_zero_divisor)
next
  assume h: "a = 0 \<and> b \<noteq> 0"
  then have "0 < \<bar>b\<bar>" by simp
  then have "0 \<le> \<bar>b\<bar> div 2" "\<bar>b\<bar> div 2 < \<bar>b\<bar>"
    by linarith+
  then have "\<bar>b\<bar> div 2 div \<bar>b\<bar> = 0"
    by (rule div_pos_pos_trivial)
  with h have m: "divfix_magnitude a b = 0"
    by (simp add: divfix_magnitude_def)
  have "divfix_magnitude a b < 2 ^ (w - 1)" by (simp add: m)
  with assms h have "PVG_FT_DivFix w a b = Some (sgn a * sgn b * divfix_magnitude a b)"
    by (intro DivFix_general) simp_all
  then show "PVG_FT_DivFix w a b = Some 0" by (simp add: m)
next
  assume h: "b \<noteq> 0 \<and> divfix_magnitude a b < 2 ^ (w - 1)"
  with assms show "PVG_FT_DivFix w a b = Some (sgn a * sgn b * divfix_magnitude a b)"
    by (intro DivFix_general) simp_all
  from h show "divfix_magnitude a b
      = \<lfloor>real_of_int (\<bar>a\<bar> * 65536) / real_of_int \<bar>b\<bar> + 1 / 2\<rfloor>"
    by (intro divfix_magnitude_round) simp
qed

theorem DivFix_contract_witness:
  "PVG_FT_DivFix 32 (- 5) 0 = Some (- 2147483647)
   \<and> PVG_FT_DivFix 64 0 (- 2147483648) = Some 0
   \<and> PVG_FT_DivFix 32 (- 3) 131072 = Some (- 2)
   \<and> PVG_FT_DivFix 64 65536 1 = Some 4294967296"
proof -
  have h: "in32 (- 5)" "in32 0" "in32 (- 2147483648)" "in32 (- 3)" "in32 131072"
    "in32 65536" "in32 1"
    by (simp_all add: in32_def)
  have m: "divfix_magnitude (- 3) 131072 = 2" "divfix_magnitude 65536 1 = 4294967296"
    by (simp_all add: divfix_magnitude_def)
  show ?thesis
    using DivFix_contract [OF _ h(1) h(2), of 32] DivFix_contract [OF _ h(2) h(3), of 64]
      DivFix_contract [OF _ h(4) h(5), of 32] DivFix_contract [OF _ h(6) h(7), of 64]
    by (simp add: m long_min_def)
qed

section \<open>Angle difference\<close>

lemma angle_reduce_range:
  "- PVG_FT_ANGLE_PI < angle_reduce theta" "angle_reduce theta \<le> PVG_FT_ANGLE_PI"
proof -
  have "0 \<le> (PVG_FT_ANGLE_PI - theta) mod PVG_FT_ANGLE_2PI"
    "(PVG_FT_ANGLE_PI - theta) mod PVG_FT_ANGLE_2PI < PVG_FT_ANGLE_2PI"
    by (simp_all add: angle_defs)
  then show "- PVG_FT_ANGLE_PI < angle_reduce theta" "angle_reduce theta \<le> PVG_FT_ANGLE_PI"
    by (simp_all add: angle_reduce_def PVG_FT_ANGLE_2PI_def)
qed

lemma angle_reduce_shift: "\<exists>k. angle_reduce theta = theta + k * PVG_FT_ANGLE_2PI"
proof -
  have "(PVG_FT_ANGLE_PI - theta) mod PVG_FT_ANGLE_2PI
        = (PVG_FT_ANGLE_PI - theta)
          - (PVG_FT_ANGLE_PI - theta) div PVG_FT_ANGLE_2PI * PVG_FT_ANGLE_2PI"
    by (simp add: minus_div_mult_eq_mod)
  then have "angle_reduce theta
        = theta + ((PVG_FT_ANGLE_PI - theta) div PVG_FT_ANGLE_2PI) * PVG_FT_ANGLE_2PI"
    by (simp add: angle_reduce_def)
  then show ?thesis ..
qed

lemma angle_reduce_id:
  assumes "- PVG_FT_ANGLE_PI < theta" "theta \<le> PVG_FT_ANGLE_PI"
  shows "angle_reduce theta = theta"
proof -
  have "(PVG_FT_ANGLE_PI - theta) mod PVG_FT_ANGLE_2PI = PVG_FT_ANGLE_PI - theta"
    using assms by (intro mod_pos_pos_trivial) (simp_all add: PVG_FT_ANGLE_2PI_def)
  then show ?thesis by (simp add: angle_reduce_def)
qed

lemma angle_reduce_add: "angle_reduce (theta + PVG_FT_ANGLE_2PI) = angle_reduce theta"
proof -
  have "(PVG_FT_ANGLE_PI - (theta + PVG_FT_ANGLE_2PI)) mod PVG_FT_ANGLE_2PI
      = (PVG_FT_ANGLE_PI - theta - PVG_FT_ANGLE_2PI) mod PVG_FT_ANGLE_2PI"
    by (simp add: algebra_simps)
  also have "\<dots> = (PVG_FT_ANGLE_PI - theta) mod PVG_FT_ANGLE_2PI"
    by (rule minus_mod_self2)
  finally show ?thesis by (simp add: angle_reduce_def)
qed

lemma angle_reduce_sub: "angle_reduce (theta - PVG_FT_ANGLE_2PI) = angle_reduce theta"
  using angle_reduce_add [of "theta - PVG_FT_ANGLE_2PI"] by simp

lemma angle_diff_up_eq:
  "angle_diff_up delta = (if delta \<le> - PVG_FT_ANGLE_PI then angle_reduce delta else delta)"
proof (induction delta rule: angle_diff_up.induct)
  case (1 delta)
  show ?case
  proof (cases "delta \<le> - PVG_FT_ANGLE_PI")
    case True
    note le = this
    show ?thesis
    proof (cases "delta + PVG_FT_ANGLE_2PI \<le> - PVG_FT_ANGLE_PI")
      case True
      with le "1.IH" have "angle_diff_up (delta + PVG_FT_ANGLE_2PI) = angle_reduce delta"
        by (simp add: angle_reduce_add)
      with le show ?thesis by (subst angle_diff_up.simps) simp
    next
      case False
      with le have "angle_reduce (delta + PVG_FT_ANGLE_2PI) = delta + PVG_FT_ANGLE_2PI"
        by (intro angle_reduce_id) (simp_all add: PVG_FT_ANGLE_2PI_def)
      moreover from False le "1.IH"
      have "angle_diff_up (delta + PVG_FT_ANGLE_2PI) = delta + PVG_FT_ANGLE_2PI" by simp
      ultimately show ?thesis using le
        by (subst angle_diff_up.simps) (simp add: angle_reduce_add)
    qed
  next
    case False
    then show ?thesis by (subst angle_diff_up.simps) simp
  qed
qed

lemma angle_diff_down_eq:
  "angle_diff_down delta = (if delta > PVG_FT_ANGLE_PI then angle_reduce delta else delta)"
proof (induction delta rule: angle_diff_down.induct)
  case (1 delta)
  show ?case
  proof (cases "delta > PVG_FT_ANGLE_PI")
    case True
    note gt = this
    show ?thesis
    proof (cases "delta - PVG_FT_ANGLE_2PI > PVG_FT_ANGLE_PI")
      case True
      with gt "1.IH" have "angle_diff_down (delta - PVG_FT_ANGLE_2PI) = angle_reduce delta"
        by (simp add: angle_reduce_sub)
      with gt show ?thesis by (subst angle_diff_down.simps) simp
    next
      case False
      with gt have "angle_reduce (delta - PVG_FT_ANGLE_2PI) = delta - PVG_FT_ANGLE_2PI"
        by (intro angle_reduce_id) (simp_all add: PVG_FT_ANGLE_2PI_def)
      moreover from False gt "1.IH"
      have "angle_diff_down (delta - PVG_FT_ANGLE_2PI) = delta - PVG_FT_ANGLE_2PI" by simp
      ultimately show ?thesis using gt
        by (subst angle_diff_down.simps) (simp add: angle_reduce_sub)
    qed
  next
    case False
    then show ?thesis by (subst angle_diff_down.simps) simp
  qed
qed

lemma angle_diff_loops: "angle_diff_down (angle_diff_up delta) = angle_reduce delta"
proof (cases "delta \<le> - PVG_FT_ANGLE_PI")
  case True
  then show ?thesis
    using angle_reduce_range [of delta] by (simp add: angle_diff_up_eq angle_diff_down_eq)
next
  case False
  then show ?thesis
    using angle_reduce_id [of delta] by (auto simp: angle_diff_up_eq angle_diff_down_eq)
qed

text \<open>
  C7: for all angles \<open>angle1\<close> and \<open>angle2\<close> whose difference does not overflow 32
  bits, \<open>PVG_FT_Angle_Diff angle1 angle2\<close> is \<open>angle2 - angle1\<close> shifted by an integer
  multiple of the full turn into \<open>(-180, 180]\<close> degrees; it is the difference reduced
  into that interval, and so within one resolution unit of it (with \<open>angle1 = a\<close> and
  \<open>angle2 = a + theta\<close> the difference is \<open>theta\<close>).
\<close>

theorem Angle_Diff_normalised:
  assumes "in32 (angle2 - angle1)"
  shows "(\<exists>k. PVG_FT_Angle_Diff angle1 angle2 = angle2 - angle1 + k * PVG_FT_ANGLE_2PI)
         \<and> - PVG_FT_ANGLE_PI < PVG_FT_Angle_Diff angle1 angle2
         \<and> PVG_FT_Angle_Diff angle1 angle2 \<le> PVG_FT_ANGLE_PI
         \<and> PVG_FT_Angle_Diff angle1 angle2 = angle_reduce (angle2 - angle1)
         \<and> \<bar>PVG_FT_Angle_Diff angle1 angle2 - angle_reduce (angle2 - angle1)\<bar> \<le> 1"
proof -
  have "PVG_FT_Angle_Diff angle1 angle2 = angle_reduce (angle2 - angle1)"
    by (simp add: PVG_FT_Angle_Diff_def wrap32_id [OF assms] angle_diff_loops)
  then show ?thesis
    using angle_reduce_shift [of "angle2 - angle1"] angle_reduce_range [of "angle2 - angle1"]
    by simp
qed

theorem Angle_Diff_normalised_witness:
  "in32 (23592970 - 5) \<and> PVG_FT_Angle_Diff 5 23592970 = 5"
proof -
  have h: "in32 (23592970 - 5)" by (simp add: in32_def)
  show ?thesis using h Angle_Diff_normalised [OF h]
    by (simp add: angle_reduce_def angle_defs)
qed

section \<open>The rounding of the accumulated angle\<close>

lemma and_not_31: "(x::int) AND NOT 31 = 32 * (x div 32)"
proof -
  have "(x::int) AND NOT (mask 5) = push_bit 5 (drop_bit 5 x)"
    by (rule bit_eqI) (auto simp add: bit_simps)
  moreover have "(mask 5 :: int) = 31" by (simp add: mask_eq_exp_minus_1)
  ultimately show ?thesis by (simp add: push_bit_eq_mult drop_bit_eq_div)
qed

lemma and_minus_32: "(x::int) AND - 32 = 32 * (x div 32)"
  using and_not_31 [of x] by simp

lemma PAD_ROUND_32: "PVG_FT_PAD_ROUND x 32 = 32 * ((x + 16) div 32)"
  by (simp add: PVG_FT_PAD_ROUND_def PVG_FT_PAD_FLOOR_def c_div_def and_minus_32)

lemma round_theta_dvd: "32 dvd round_theta theta"
  by (simp add: round_theta_def PAD_ROUND_32)


lemma pseudo_polarize_angle: "32 dvd vec_y (ft_trig_pseudo_polarize v)"
  by (simp add: ft_trig_pseudo_polarize_def case_prod_unfold round_theta_dvd)

text \<open>
  C10: for every non-zero input vector \<open>(dx, dy)\<close>, the angle returned by
  \<open>PVG_FT_Atan2\<close> and the angle output of \<open>PVG_FT_Vector_Polarize\<close> are integer
  multiples of 32 angle units.  (The rounding step moves the accumulated angle by at
  most 16 units, \<open>round_theta_near\<close>.)
\<close>

theorem polarized_angle_multiple_of_32:
  assumes "dx \<noteq> 0 \<or> dy \<noteq> 0"
  shows "32 dvd PVG_FT_Atan2 dx dy
         \<and> 32 dvd snd (PVG_FT_Vector_Polarize \<lparr>vec_x = dx, vec_y = dy\<rparr> out)"
  using assms
  by (auto simp: PVG_FT_Atan2_def PVG_FT_Vector_Polarize_def case_prod_unfold Let_def
      pseudo_polarize_angle)

theorem polarized_angle_multiple_of_32_witness:
  "32 dvd PVG_FT_Atan2 3 4
     \<and> 32 dvd snd (PVG_FT_Vector_Polarize \<lparr>vec_x = 3, vec_y = 4\<rparr> (0, 0))"
  using polarized_angle_multiple_of_32 [of 3 4 "(0, 0)"] by simp

section \<open>The zero vector\<close>

text \<open>
  C9, as stated, fails for \<open>PVG_FT_Vector_Polarize\<close>: on the zero vector it returns
  before it writes its outputs, so the angle is whatever was stored there before the
  call (here 5), not 0.
\<close>

theorem zero_vector_counterexample:
  "snd (PVG_FT_Vector_Polarize \<lparr>vec_x = 0, vec_y = 0\<rparr> (7, 5)) = 5"
  by (simp add: PVG_FT_Vector_Polarize_def)

text \<open>
  C9 (amended): on the zero vector both operations return at their guard, before the
  pre-normalisation and the CORDIC engine are reached: \<open>PVG_FT_Atan2\<close> returns the
  angle 0, and \<open>PVG_FT_Vector_Polarize\<close> leaves its length and angle outputs as they
  were before the call.
\<close>

theorem zero_vector_early_return:
  "PVG_FT_Atan2 0 0 = 0
   \<and> PVG_FT_Vector_Polarize \<lparr>vec_x = 0, vec_y = 0\<rparr> out = out"
  by (simp add: PVG_FT_Atan2_def PVG_FT_Vector_Polarize_def)

section \<open>The axis cases of Atan2\<close>

text \<open>
  C4, as stated, fails in its last case: the vector \<open>(-65536, 0)\<close> has \<open>y = 0\<close>, for
  which the octant reduction starts from \<open>-180\<close> degrees, and the result is
  \<open>-180 * 2^16\<close>.
\<close>

theorem atan2_axes_counterexample:
  "PVG_FT_Atan2 (- 65536) 0 = - 11796480 \<and> PVG_FT_Atan2 (- 65536) 0 \<noteq> 11796480"
  by code_simp

text \<open>
  C4 (amended): \<open>PVG_FT_Atan2 0 0 = 0\<close>, \<open>PVG_FT_Atan2 65536 0 = 0\<close>,
  \<open>PVG_FT_Atan2 0 65536 = 90 * 2^16\<close> (exactly) and
  \<open>PVG_FT_Atan2 (-65536) 0 = -180 * 2^16\<close>.
\<close>

theorem atan2_axes:
  "PVG_FT_Atan2 0 0 = 0 \<and> PVG_FT_Atan2 65536 0 = 0
   \<and> PVG_FT_Atan2 0 65536 = 90 * 65536 \<and> PVG_FT_Atan2 (- 65536) 0 = - (180 * 65536)"
  by code_simp

section \<open>The pseudo-rotation algorithm\<close>

lemma rotate_up_done:
  "- PVG_FT_ANGLE_PI4 \<le> theta \<Longrightarrow> rotate_up (x, y, theta) = (x, y, theta)"
  by (subst rotate_up.simps) simp

lemma quarter_turns_eq: "rotate_down (rotate_up s) = quarter_turns s"
proof (induction s rule: quarter_turns.induct)
  case (1 x y theta)
  consider (up) "theta < - PVG_FT_ANGLE_PI4"
    | (down) "- PVG_FT_ANGLE_PI4 \<le> theta" "theta > PVG_FT_ANGLE_PI4"
    | (stay) "- PVG_FT_ANGLE_PI4 \<le> theta" "theta \<le> PVG_FT_ANGLE_PI4" by linarith
  then show ?case
  proof cases
    case up
    then have "rotate_up (x, y, theta) = rotate_up (y, wrap32 (- x), theta + PVG_FT_ANGLE_PI2)"
      by (subst rotate_up.simps) simp
    moreover have "quarter_turns (x, y, theta)
        = quarter_turns (y, wrap32 (- x), theta + PVG_FT_ANGLE_PI2)"
      using up by (subst quarter_turns.simps) simp
    ultimately show ?thesis using "1.IH"(1) [OF up] by simp
  next
    case down
    then have nup: "\<not> theta < - PVG_FT_ANGLE_PI4" by simp
    have "- PVG_FT_ANGLE_PI4 \<le> theta - PVG_FT_ANGLE_PI2"
      using down by (simp add: angle_defs)
    then have "rotate_up (wrap32 (- y), x, theta - PVG_FT_ANGLE_PI2)
        = (wrap32 (- y), x, theta - PVG_FT_ANGLE_PI2)"
      by (rule rotate_up_done)
    moreover have "rotate_down (x, y, theta)
        = rotate_down (wrap32 (- y), x, theta - PVG_FT_ANGLE_PI2)"
      using down by (subst rotate_down.simps) simp
    moreover have "quarter_turns (x, y, theta)
        = quarter_turns (wrap32 (- y), x, theta - PVG_FT_ANGLE_PI2)"
      using down nup by (subst quarter_turns.simps) simp
    ultimately show ?thesis
      using "1.IH"(2) [OF nup down(2)] rotate_up_done [OF down(1)] by simp
  next
    case stay
    then have "rotate_down (x, y, theta) = (x, y, theta)"
      by (subst rotate_down.simps) simp
    moreover have "quarter_turns (x, y, theta) = (x, y, theta)"
      using stay by (subst quarter_turns.simps) simp
    ultimately show ?thesis using rotate_up_done [OF stay(1)] by simp
  qed
qed

lemma quarter_turns_range:
  "quarter_turns s = (x', y', t') \<Longrightarrow> - PVG_FT_ANGLE_PI4 \<le> t' \<and> t' \<le> PVG_FT_ANGLE_PI4"
proof (induction s rule: quarter_turns.induct)
  case (1 x y theta)
  from "1.prems" show ?case
    by (subst (asm) quarter_turns.simps) (auto split: if_splits dest: "1.IH")
qed

lemma rotate_loop_step:
  assumes "i < 23" "b = 2 ^ (i - 1)"
  shows "rotate_loop i b s = rotate_loop (i + 1) (b * 2) (micro_rotation i s)"
proof (cases s)
  case (fields x y theta)
  show ?thesis unfolding fields
    using assms
    by (subst rotate_loop.simps)
      (simp add: micro_rotation_def PVG_FT_TRIG_MAX_ITERS_def Let_def)
qed

lemma rotate_loop_fold:
  assumes "1 \<le> i" "i \<le> 23" "b = 2 ^ (i - 1)"
  shows "rotate_loop i b s = foldl (\<lambda>s i. micro_rotation i s) s [i..<23]"
  using assms
proof (induction "23 - i" arbitrary: i b s)
  case 0
  then have "i = 23" by simp
  then show ?case
    by (cases s) (simp add: rotate_loop.simps PVG_FT_TRIG_MAX_ITERS_def)
next
  case (Suc n)
  then have lt: "i < 23" by simp
  have b2: "b * 2 = 2 ^ (i + 1 - 1)"
    using Suc.prems by (cases i) simp_all
  have "rotate_loop i b s = rotate_loop (i + 1) (b * 2) (micro_rotation i s)"
    using lt Suc.prems(3) by (rule rotate_loop_step)
  also have "\<dots> = foldl (\<lambda>s i. micro_rotation i s) (micro_rotation i s) [i + 1..<23]"
    using Suc.hyps(2) lt b2 by (intro Suc.hyps(1)) simp_all
  also have "\<dots> = foldl (\<lambda>s i. micro_rotation i s) s [i..<23]"
    using lt by (simp add: upt_conv_Cons)
  finally show ?case .
qed

text \<open>
  C8, as stated, fails twice.  The loop runs the micro-rotations 1 to 22, one for each
  of the 22 table entries, so its result differs from that of the micro-rotations 1 to
  21; and the angle \<open>-45\<close> degrees is left as it is by the quarter-turns, so the
  reduced angle lies in the closed interval \<open>[-45, 45]\<close> degrees and not always in
  \<open>(-45, 45]\<close>.
\<close>

theorem pseudo_rotate_algorithm_counterexample:
  "ft_trig_pseudo_rotate \<lparr>vec_x = 14408027, vec_y = 0\<rparr> 0
     \<noteq> cordic_rotate 21 \<lparr>vec_x = 14408027, vec_y = 0\<rparr> 0
   \<and> snd (snd (rotate_down (rotate_up (14408027, 0, - PVG_FT_ANGLE_PI4))))
       = - PVG_FT_ANGLE_PI4"
  by code_simp

text \<open>
  C8 (amended): for every input vector and target angle, the pseudo-rotation first
  reduces the target angle into the closed interval \<open>[-45, 45]\<close> degrees by successive
  quarter-turns of the vector (coordinate swap and negation) while the angle exceeds
  45 degrees in either direction, and then performs the micro-rotations \<open>i = 1\<close> to
  \<open>22\<close>, each choosing add versus subtract by the sign of the remaining angle and
  updating \<open>x\<close>, \<open>y\<close> and the remaining angle with the \<open>i\<close>-th table entry.
\<close>

theorem pseudo_rotate_algorithm:
  "ft_trig_pseudo_rotate vec theta = cordic_rotate 22 vec theta
   \<and> - PVG_FT_ANGLE_PI4 \<le> snd (snd (quarter_turns (vec_x vec, vec_y vec, theta)))
   \<and> snd (snd (quarter_turns (vec_x vec, vec_y vec, theta))) \<le> PVG_FT_ANGLE_PI4"
proof -
  have "rotate_loop 1 1 s = foldl (\<lambda>s i. micro_rotation i s) s [1..<23]" for s
    by (rule rotate_loop_fold) simp_all
  then have "ft_trig_pseudo_rotate vec theta = cordic_rotate 22 vec theta"
    by (simp add: ft_trig_pseudo_rotate_def cordic_rotate_def quarter_turns_eq)
  moreover obtain x' y' t' where q: "quarter_turns (vec_x vec, vec_y vec, theta) = (x', y', t')"
    by (cases "quarter_turns (vec_x vec, vec_y vec, theta)")
  ultimately show ?thesis using quarter_turns_range [OF q] by (simp add: q)
qed

section \<open>The arctangent table\<close>

lemma atn_poly_sum:
  "atn_poly k x = (\<Sum>i<k. (- 1) ^ i * (1 / real (i * 2 + 1) * x ^ (i * 2 + 1)))"
  by (induction k) simp_all

lemma arctan_bracket:
  assumes "0 < x" "x \<le> 1"
  shows "atn_poly (2 * n) x \<le> arctan x" "arctan x \<le> atn_poly (2 * n + 1) x"
proof -
  have ax: "\<bar>x\<bar> \<le> 1" using assms by simp
  let ?a = "\<lambda>n. 1 / real (n * 2 + 1) * x ^ (n * 2 + 1)"
  have pos: "0 < ?a 0" using assms by simp
  from summable_Leibniz(2) [OF zeroseq_arctan_series [OF ax] monoseq_arctan_series [OF ax]] pos
  have "(\<Sum>i. (- 1) ^ i * ?a i)
      \<in> {\<Sum>i<2 * n. (- 1) ^ i * ?a i .. \<Sum>i<2 * n + 1. (- 1) ^ i * ?a i}"
    by blast
  then show "atn_poly (2 * n) x \<le> arctan x" "arctan x \<le> atn_poly (2 * n + 1) x"
    by (simp_all only: atn_poly_sum arctan_series [OF ax] atLeastAtMost_iff)
qed

lemma pi_bounds: "3.14159265 < pi" "pi < 3.14159266"
proof -
  have l5: "atn_poly (2 * 3) (1 / 5) \<le> arctan (1 / 5)"
    and h5: "arctan (1 / 5) \<le> atn_poly (2 * 3 + 1) (1 / 5)"
    by (rule arctan_bracket; simp)+
  have l239: "atn_poly (2 * 1) (1 / 239) \<le> arctan (1 / 239)"
    and h239: "arctan (1 / 239) \<le> atn_poly (2 * 1 + 1) (1 / 239)"
    by (rule arctan_bracket; simp)+
  have p: "pi = 16 * arctan (1 / 5) - 4 * arctan (1 / 239)"
    using machin by simp
  have e1: "(3.14159265::real)
      < 16 * atn_poly (2 * 3) (1 / 5) - 4 * atn_poly (2 * 1 + 1) (1 / 239)"
    by (simp add: eval_nat_numeral)
  have e2: "16 * atn_poly (2 * 3 + 1) (1 / 5) - 4 * atn_poly (2 * 1) (1 / 239)
      < (3.14159266::real)"
    by (simp add: eval_nat_numeral)
  show "3.14159265 < pi" using l5 h239 e1 unfolding p by linarith
  show "pi < 3.14159266" using h5 l239 e2 unfolding p by linarith
qed

lemma alpha_bound:
  assumes i: "1 \<le> i"
    and e: "0 \<le> a - e"
    and lo: "(a - e) * 3.14159266 \<le> 11796480 * atn_poly (2 * n) (1 / 2 ^ i)"
    and hi: "11796480 * atn_poly (2 * n + 1) (1 / 2 ^ i) \<le> (a + e) * 3.14159265"
  shows "\<bar>alpha i - a\<bar> \<le> e"
proof -
  have x: "0 < (1::real) / 2 ^ i" "(1::real) / 2 ^ i \<le> 1"
    by (simp_all add: one_le_power)
  note br = arctan_bracket [OF x, of n]
  have "(a - e) * pi \<le> (a - e) * 3.14159266"
    using e pi_bounds(2) by (intro mult_left_mono) simp_all
  also have "\<dots> \<le> 11796480 * arctan (1 / 2 ^ i)" using lo br(1) by linarith
  finally have 1: "a - e \<le> alpha i"
    by (simp add: alpha_def field_simps)
  have ae: "0 \<le> a + e"
  proof -
    have "0 \<le> arctan ((1::real) / 2 ^ i)" by simp
    with br(2) have "0 \<le> 11796480 * atn_poly (2 * n + 1) (1 / 2 ^ i)" by linarith
    with hi have "0 \<le> (a + e) * 3.14159265" by linarith
    then show ?thesis by (simp add: zero_le_mult_iff)
  qed
  have "11796480 * arctan (1 / 2 ^ i) \<le> (a + e) * 3.14159265" using hi br(2) by linarith
  also have "\<dots> \<le> (a + e) * pi"
    using ae pi_bounds(1) by (intro mult_left_mono) simp_all
  finally have 2: "alpha i \<le> a + e"
    by (simp add: alpha_def field_simps)
  from 1 2 show ?thesis by simp
qed

lemma alpha_1: "\<bar>alpha 1 - 1740967\<bar> \<le> 0.2"
  by (rule alpha_bound [where n = 6]) (simp_all add: eval_nat_numeral)

lemma alpha_2: "\<bar>alpha 2 - 919879\<bar> \<le> 0.26"
  by (rule alpha_bound [where n = 3]) (simp_all add: eval_nat_numeral)

lemma alpha_3: "\<bar>alpha 3 - 466945\<bar> \<le> 0.08"
  by (rule alpha_bound [where n = 2]) (simp_all add: eval_nat_numeral)

lemma alpha_4: "\<bar>alpha 4 - 234379\<bar> \<le> 0.36"
  by (rule alpha_bound [where n = 2]) (simp_all add: eval_nat_numeral)

lemma alpha_5: "\<bar>alpha 5 - 117304\<bar> \<le> 0.42"
  by (rule alpha_bound [where n = 2]) (simp_all add: eval_nat_numeral)

lemma alpha_6: "\<bar>alpha 6 - 58666\<bar> \<le> 0.11"
  by (rule alpha_bound [where n = 1]) (simp_all add: eval_nat_numeral)

lemma alpha_7: "\<bar>alpha 7 - 29335\<bar> \<le> 0.16"
  by (rule alpha_bound [where n = 1]) (simp_all add: eval_nat_numeral)

lemma alpha_8: "\<bar>alpha 8 - 14668\<bar> \<le> 0.36"
  by (rule alpha_bound [where n = 1]) (simp_all add: eval_nat_numeral)

lemma alpha_9: "\<bar>alpha 9 - 7334\<bar> \<le> 0.15"
  by (rule alpha_bound [where n = 1]) (simp_all add: eval_nat_numeral)

lemma alpha_10: "\<bar>alpha 10 - 3667\<bar> \<le> 0.08"
  by (rule alpha_bound [where n = 1]) (simp_all add: eval_nat_numeral)

lemma alpha_11: "\<bar>alpha 11 - 1833\<bar> \<le> 0.47"
  by (rule alpha_bound [where n = 1]) (simp_all add: eval_nat_numeral)

lemma alpha_12: "\<bar>alpha 12 - 917\<bar> \<le> 0.27"
  by (rule alpha_bound [where n = 1]) (simp_all add: eval_nat_numeral)

lemma alpha_13: "\<bar>alpha 13 - 458\<bar> \<le> 0.37"
  by (rule alpha_bound [where n = 1]) (simp_all add: eval_nat_numeral)

lemma alpha_14: "\<bar>alpha 14 - 229\<bar> \<le> 0.19"
  by (rule alpha_bound [where n = 1]) (simp_all add: eval_nat_numeral)

lemma alpha_15: "\<bar>alpha 15 - 115\<bar> \<le> 0.41"
  by (rule alpha_bound [where n = 1]) (simp_all add: eval_nat_numeral)

lemma alpha_16: "\<bar>alpha 16 - 57\<bar> \<le> 0.3"
  by (rule alpha_bound [where n = 1]) (simp_all add: eval_nat_numeral)

lemma alpha_17: "\<bar>alpha 17 - 29\<bar> \<le> 0.36"
  by (rule alpha_bound [where n = 1]) (simp_all add: eval_nat_numeral)

lemma alpha_18: "\<bar>alpha 18 - 14\<bar> \<le> 0.33"
  by (rule alpha_bound [where n = 1]) (simp_all add: eval_nat_numeral)

lemma alpha_19: "\<bar>alpha 19 - 7\<bar> \<le> 0.17"
  by (rule alpha_bound [where n = 1]) (simp_all add: eval_nat_numeral)

lemma alpha_20: "\<bar>alpha 20 - 4\<bar> \<le> 0.42"
  by (rule alpha_bound [where n = 1]) (simp_all add: eval_nat_numeral)

lemma alpha_21: "\<bar>alpha 21 - 2\<bar> \<le> 0.21"
  by (rule alpha_bound [where n = 1]) (simp_all add: eval_nat_numeral)

lemma alpha_22: "\<bar>alpha 22 - 1\<bar> \<le> 0.11"
  by (rule alpha_bound [where n = 1]) (simp_all add: eval_nat_numeral)

section \<open>One micro-rotation\<close>

lemma round_shift:
  fixes y :: int
  assumes "1 \<le> i"
  shows "\<bar>real_of_int ((y + 2 ^ (i - 1)) div 2 ^ i) - real_of_int y / 2 ^ i\<bar> \<le> 1 / 2"
proof -
  define m :: int where "m = 2 ^ i"
  define h :: int where "h = 2 ^ (i - 1)"
  define q where "q = (y + h) div m"
  define r where "r = (y + h) mod m"
  have m: "m = 2 * h" "0 < h"
    using assms by (simp_all add: m_def h_def flip: power_Suc)
  have r: "0 \<le> r" "r < m" using m by (simp_all add: r_def)
  have "y + h = m * q + r" by (simp add: q_def r_def)
  then have "real_of_int y = real_of_int m * real_of_int q + real_of_int r - real_of_int h"
    by (metis add_diff_cancel_right' of_int_add of_int_diff of_int_mult)
  then have "real_of_int q - real_of_int y / real_of_int m
      = (real_of_int h - real_of_int r) / real_of_int m"
    using m by (simp add: field_simps)
  moreover have "\<bar>(real_of_int h - real_of_int r) / real_of_int m\<bar> \<le> 1 / 2"
  proof -
    have "\<bar>real_of_int h - real_of_int r\<bar> \<le> real_of_int h"
      using r m by (simp add: abs_le_iff)
    then have "\<bar>real_of_int h - real_of_int r\<bar> / real_of_int m \<le> real_of_int h / real_of_int m"
      using m by (simp add: divide_right_mono)
    also have "\<dots> = 1 / 2" using m by simp
    finally show ?thesis using m by simp
  qed
  ultimately show ?thesis by (simp add: q_def m_def h_def)
qed

lemma gain_sq_pos: "0 < gain_sq n"
  by (induction n) (simp_all add: add_pos_pos)

lemma gain_sq_mono: "m \<le> n \<Longrightarrow> gain_sq m \<le> gain_sq n"
proof (induction n)
  case 0
  then show ?case by simp
next
  case (Suc n)
  have "gain_sq n \<le> gain_sq (Suc n)"
    using gain_sq_pos [of n] by (simp add: field_simps)
  with Suc show ?case by (cases "m = Suc n") auto
qed

lemma gain_sq_22: "1.3559 \<le> gain_sq 22" "gain_sq 22 \<le> 1.35591"
  by (simp_all add: eval_nat_numeral)

lemma gain_ge_1: "1 \<le> gain n"
proof -
  have "gain_sq 0 \<le> gain_sq n" by (rule gain_sq_mono) simp
  then show ?thesis by (simp add: gain_def)
qed

lemma gain_le: "n \<le> 22 \<Longrightarrow> gain n \<le> 1.1645"
proof -
  assume "n \<le> 22"
  then have "gain_sq n \<le> gain_sq 22" by (rule gain_sq_mono)
  with gain_sq_22(2) have "gain_sq n \<le> 1.1645\<^sup>2" by (simp add: power2_eq_square)
  then show ?thesis unfolding gain_def by (intro real_le_lsqrt) simp_all
qed

lemma gain_Suc: "gain (Suc n) = gain n * sqrt (1 + (1 / 2 ^ Suc n)\<^sup>2)"
proof -
  have "(1 / 2 ^ Suc n :: real)\<^sup>2 = 1 / 4 ^ Suc n"
    by (simp add: power_divide power2_eq_square flip: power_mult_distrib)
  then show ?thesis by (simp add: gain_def real_sqrt_mult)
qed

lemma complex_micro_rotation:
  assumes "d = 1 \<or> d = - 1"
  shows "Complex 1 (d * t) = of_real (sqrt (1 + t\<^sup>2)) * cis (d * arctan t)"
proof -
  have s: "sqrt (1 + t\<^sup>2) \<noteq> 0"
    by (metis add_pos_nonneg less_numeral_extra(1) order_less_irrefl real_sqrt_gt_0_iff zero_le_power2)
  have "cos (d * arctan t) = 1 / sqrt (1 + t\<^sup>2)"
    using assms by (auto simp: cos_arctan)
  moreover have "sin (d * arctan t) = d * t / sqrt (1 + t\<^sup>2)"
    using assms by (auto simp: sin_arctan)
  ultimately show ?thesis
    using s by (simp add: complex_eq_iff)
qed

lemma less_22_cases:
  "k < (22::nat) \<Longrightarrow> k = 21 \<or> k = 20 \<or> k = 19 \<or> k = 18 \<or> k = 17 \<or> k = 16
    \<or> k = 15 \<or> k = 14 \<or> k = 13 \<or> k = 12 \<or> k = 11 \<or> k = 10 \<or> k = 9 \<or> k = 8
    \<or> k = 7 \<or> k = 6 \<or> k = 5 \<or> k = 4 \<or> k = 3 \<or> k = 2 \<or> k = 1 \<or> k = 0"
  by arith

lemma theta_bound_Suc:
  "n < 22 \<Longrightarrow> theta_bound n = ft_trig_arctan_table ! n + theta_bound (Suc n)"
  by (simp add: theta_bound_def ft_trig_arctan_table_def flip: Cons_nth_drop_Suc)

lemma table_converges: "n < 22 \<Longrightarrow> ft_trig_arctan_table ! n \<le> theta_bound (Suc n)"
  by (drule less_22_cases, elim disjE) (simp_all add: theta_bound_def ft_trig_arctan_table_def)

lemma table_nonneg: "n < 22 \<Longrightarrow> 0 \<le> ft_trig_arctan_table ! n"
  by (drule less_22_cases, elim disjE) (simp_all add: ft_trig_arctan_table_def)

lemma alpha_table:
  assumes "n < 22"
  shows "\<bar>alpha (n + 1) - real_of_int (ft_trig_arctan_table ! n)\<bar> \<le> cordic_eps ! n"
  using less_22_cases [OF assms]
proof (elim disjE)
  assume "n = 21"
  then show ?thesis using alpha_22 by (simp add: ft_trig_arctan_table_def cordic_eps_def flip: numeral_2_eq_2)
next
  assume "n = 20"
  then show ?thesis using alpha_21 by (simp add: ft_trig_arctan_table_def cordic_eps_def flip: numeral_2_eq_2)
next
  assume "n = 19"
  then show ?thesis using alpha_20 by (simp add: ft_trig_arctan_table_def cordic_eps_def flip: numeral_2_eq_2)
next
  assume "n = 18"
  then show ?thesis using alpha_19 by (simp add: ft_trig_arctan_table_def cordic_eps_def flip: numeral_2_eq_2)
next
  assume "n = 17"
  then show ?thesis using alpha_18 by (simp add: ft_trig_arctan_table_def cordic_eps_def flip: numeral_2_eq_2)
next
  assume "n = 16"
  then show ?thesis using alpha_17 by (simp add: ft_trig_arctan_table_def cordic_eps_def flip: numeral_2_eq_2)
next
  assume "n = 15"
  then show ?thesis using alpha_16 by (simp add: ft_trig_arctan_table_def cordic_eps_def flip: numeral_2_eq_2)
next
  assume "n = 14"
  then show ?thesis using alpha_15 by (simp add: ft_trig_arctan_table_def cordic_eps_def flip: numeral_2_eq_2)
next
  assume "n = 13"
  then show ?thesis using alpha_14 by (simp add: ft_trig_arctan_table_def cordic_eps_def flip: numeral_2_eq_2)
next
  assume "n = 12"
  then show ?thesis using alpha_13 by (simp add: ft_trig_arctan_table_def cordic_eps_def flip: numeral_2_eq_2)
next
  assume "n = 11"
  then show ?thesis using alpha_12 by (simp add: ft_trig_arctan_table_def cordic_eps_def flip: numeral_2_eq_2)
next
  assume "n = 10"
  then show ?thesis using alpha_11 by (simp add: ft_trig_arctan_table_def cordic_eps_def flip: numeral_2_eq_2)
next
  assume "n = 9"
  then show ?thesis using alpha_10 by (simp add: ft_trig_arctan_table_def cordic_eps_def flip: numeral_2_eq_2)
next
  assume "n = 8"
  then show ?thesis using alpha_9 by (simp add: ft_trig_arctan_table_def cordic_eps_def flip: numeral_2_eq_2)
next
  assume "n = 7"
  then show ?thesis using alpha_8 by (simp add: ft_trig_arctan_table_def cordic_eps_def flip: numeral_2_eq_2)
next
  assume "n = 6"
  then show ?thesis using alpha_7 by (simp add: ft_trig_arctan_table_def cordic_eps_def flip: numeral_2_eq_2)
next
  assume "n = 5"
  then show ?thesis using alpha_6 by (simp add: ft_trig_arctan_table_def cordic_eps_def flip: numeral_2_eq_2)
next
  assume "n = 4"
  then show ?thesis using alpha_5 by (simp add: ft_trig_arctan_table_def cordic_eps_def flip: numeral_2_eq_2)
next
  assume "n = 3"
  then show ?thesis using alpha_4 by (simp add: ft_trig_arctan_table_def cordic_eps_def flip: numeral_2_eq_2)
next
  assume "n = 2"
  then show ?thesis using alpha_3 by (simp add: ft_trig_arctan_table_def cordic_eps_def flip: numeral_2_eq_2)
next
  assume "n = 1"
  then show ?thesis using alpha_2 by (simp add: ft_trig_arctan_table_def cordic_eps_def flip: numeral_2_eq_2)
next
  assume "n = 0"
  then show ?thesis using alpha_1 by (simp add: ft_trig_arctan_table_def cordic_eps_def flip: numeral_2_eq_2)
qed

lemma eps_sum_Suc:
  assumes "n < 22"
  shows "eps_sum (Suc n) = eps_sum n + cordic_eps ! n"
proof -
  have "n < length cordic_eps" using assms by (simp add: cordic_eps_def)
  then show ?thesis by (simp add: eps_sum_def take_Suc_conv_app_nth)
qed


lemma cmod_Complex_int: "\<bar>real_of_int x\<bar> \<le> cmod (Complex (real_of_int x) (real_of_int y))"
  "\<bar>real_of_int y\<bar> \<le> cmod (Complex (real_of_int x) (real_of_int y))"
  using abs_Re_le_cmod [of "Complex (real_of_int x) (real_of_int y)"]
    abs_Im_le_cmod [of "Complex (real_of_int x) (real_of_int y)"] by simp_all

lemma rot_state_bound:
  assumes n: "n \<le> 22" and R: "cmod z0 \<le> 1518500250"
    and inv: "cmod (z - of_real (gain n) * z0 * cis \<psi>) \<le> gain n * real n"
  shows "cmod z \<le> 1768293567"
proof -
  have g: "0 \<le> gain n" "gain n \<le> 1.1645" using gain_ge_1 [of n] gain_le [OF n] by simp_all
  have "cmod z \<le> cmod (z - of_real (gain n) * z0 * cis \<psi>) + cmod (of_real (gain n) * z0 * cis \<psi>)"
    using norm_triangle_sub [of z "of_real (gain n) * z0 * cis \<psi>"] by simp
  also have "cmod (of_real (gain n) * z0 * cis \<psi>) = gain n * cmod z0"
    using g by (simp add: norm_mult)
  also have "cmod (z - of_real (gain n) * z0 * cis \<psi>) + gain n * cmod z0
      \<le> gain n * real n + gain n * cmod z0" using inv by simp
  also have "\<dots> = gain n * (real n + cmod z0)" by (simp add: algebra_simps)
  also have "\<dots> \<le> 1.1645 * (22 + 1518500250)"
    using g R n by (intro mult_mono) simp_all
  also have "\<dots> \<le> 1768293567" by simp
  finally show ?thesis by simp
qed

lemma in32_of_real_bound:
  "\<bar>real_of_int v\<bar> \<le> 2147483647 \<Longrightarrow> in32 v"
  by (simp add: in32_def abs_le_iff)


lemma rot_step:
  fixes x y \<theta> t0 :: int and z0 :: complex and \<psi> :: real
  assumes n: "n < 22" and R: "cmod z0 \<le> 1518500250"
    and inv: "cmod (Complex (real_of_int x) (real_of_int y) - of_real (gain n) * z0 * cis \<psi>)
              \<le> gain n * real n"
    and ang: "\<bar>real_of_int t0 - real_of_int \<theta> - \<psi> * 11796480 / pi\<bar> \<le> eps_sum n"
    and th: "\<bar>\<theta>\<bar> \<le> theta_bound n"
    and m: "micro_rotation (Suc n) (x, y, \<theta>) = (x', y', \<theta>')"
  shows "\<exists>\<psi>'. cmod (Complex (real_of_int x') (real_of_int y')
                   - of_real (gain (Suc n)) * z0 * cis \<psi>') \<le> gain (Suc n) * real (Suc n)
      \<and> \<bar>real_of_int t0 - real_of_int \<theta>' - \<psi>' * 11796480 / pi\<bar> \<le> eps_sum (Suc n)
      \<and> \<bar>\<theta>'\<bar> \<le> theta_bound (Suc n)"
proof -
  define i where "i = Suc n"
  define t :: real where "t = 1 / 2 ^ i"
  define d :: int where "d = (if \<theta> < 0 then - 1 else 1)"
  define v1 where "v1 = (y + 2 ^ (i - 1)) div 2 ^ i"
  define v2 where "v2 = (x + 2 ^ (i - 1)) div 2 ^ i"
  define z where "z = Complex (real_of_int x) (real_of_int y)"
  define W where "W = of_real (gain n) * z0 * cis \<psi>"
  define r1 where "r1 = real_of_int v1 - real_of_int y * t"
  define r2 where "r2 = real_of_int v2 - real_of_int x * t"
  define a where "a = ft_trig_arctan_table ! n"
  define q where "q = sqrt (1 + t\<^sup>2)"
  have i1: "1 \<le> i" "i \<le> 22" using n by (simp_all add: i_def)
  have d: "d = 1 \<or> d = - 1" by (simp add: d_def)
  have dr: "real_of_int d = 1 \<or> real_of_int d = - 1" using d by auto
  have q1: "1 \<le> q" by (simp add: q_def)
  have gS: "gain (Suc n) = gain n * q" by (simp add: gain_Suc q_def t_def i_def)
  have g1: "1 \<le> gain (Suc n)" by (rule gain_ge_1)
  have g0: "0 \<le> gain n" using gain_ge_1 [of n] by simp
  \<comment> \<open>no overflow in the shifted operands\<close>
  have cz: "cmod z \<le> 1768293567"
    using inv n unfolding z_def by (intro rot_state_bound [OF _ R, of n _ \<psi>]) simp_all
  have xb: "\<bar>real_of_int x\<bar> \<le> 1768293567" "\<bar>real_of_int y\<bar> \<le> 1768293567"
    using cz cmod_Complex_int [where x = x and y = y] by (simp_all add: z_def)
  have "(2::int) ^ (i - 1) \<le> 2 ^ 21"
    using i1 by (intro power_increasing) simp_all
  then have p2: "(2::int) ^ (i - 1) \<le> 2097152" "(0::int) < 2 ^ (i - 1)"
    by simp_all
  have xi: "\<bar>x\<bar> \<le> 1768293567" "\<bar>y\<bar> \<le> 1768293567"
    using xb by linarith+
  have "in32 (y + 2 ^ (i - 1))" "in32 (x + 2 ^ (i - 1))"
    unfolding in32_def using xi p2 by linarith+
  then have w: "wrap32 (y + 2 ^ (i - 1)) = y + 2 ^ (i - 1)"
    "wrap32 (x + 2 ^ (i - 1)) = x + 2 ^ (i - 1)"
    by (simp_all add: wrap32_id)
  \<comment> \<open>the rounding of the shifts\<close>
  have r: "\<bar>r1\<bar> \<le> 1 / 2" "\<bar>r2\<bar> \<le> 1 / 2"
    using round_shift [OF i1(1), of y] round_shift [OF i1(1), of x]
    by (simp_all add: r1_def r2_def v1_def v2_def t_def)
  \<comment> \<open>the new vector before wrap-around\<close>
  define x'' where "x'' = x - d * v1"
  define y'' where "y'' = y + d * v2"
  define z' where "z' = Complex (real_of_int x'') (real_of_int y'')"
  have z'_eq: "z' = z * Complex 1 (real_of_int d * t)
      + Complex (- real_of_int d * r1) (real_of_int d * r2)"
  proof (rule complex_eqI)
    show "Re z' = Re (z * Complex 1 (real_of_int d * t)
        + Complex (- real_of_int d * r1) (real_of_int d * r2))"
      by (simp add: z'_def z_def x''_def r1_def right_diff_distrib)
    show "Im z' = Im (z * Complex 1 (real_of_int d * t)
        + Complex (- real_of_int d * r1) (real_of_int d * r2))"
      by (simp add: z'_def z_def y''_def r2_def right_diff_distrib)
  qed
  have rot: "Complex 1 (real_of_int d * t) = of_real q * cis (real_of_int d * arctan t)"
    unfolding q_def using dr by (rule complex_micro_rotation)
  define \<psi>' where "\<psi>' = \<psi> + real_of_int d * arctan t"
  have "cis \<psi>' = cis \<psi> * cis (real_of_int d * arctan t)"
    by (simp add: \<psi>'_def cis_mult)
  then have W': "of_real (gain (Suc n)) * z0 * cis \<psi>' = W * Complex 1 (real_of_int d * t)"
    by (simp add: gS W_def rot)
  have cq: "cmod (Complex 1 (real_of_int d * t)) = q"
    using q1 by (simp add: rot norm_mult)
  have ce: "cmod (Complex (- real_of_int d * r1) (real_of_int d * r2)) \<le> 1"
  proof -
    have "(real_of_int d * r1)\<^sup>2 \<le> (1 / 2)\<^sup>2" "(real_of_int d * r2)\<^sup>2 \<le> (1 / 2)\<^sup>2"
      using r dr by (auto simp: abs_le_square_iff [symmetric])
    then have "(real_of_int d * r1)\<^sup>2 + (real_of_int d * r2)\<^sup>2 \<le> 1\<^sup>2"
      by (simp add: power2_eq_square)
    then have "sqrt ((real_of_int d * r1)\<^sup>2 + (real_of_int d * r2)\<^sup>2) \<le> 1"
      by (intro real_le_lsqrt) simp_all
    then show ?thesis
      by (simp add: cmod_def)
  qed
  have "z' - of_real (gain (Suc n)) * z0 * cis \<psi>'
      = (z - W) * Complex 1 (real_of_int d * t)
        + Complex (- real_of_int d * r1) (real_of_int d * r2)"
    unfolding z'_eq W' by (simp only: left_diff_distrib) simp
  then have "cmod (z' - of_real (gain (Suc n)) * z0 * cis \<psi>')
      \<le> cmod ((z - W) * Complex 1 (real_of_int d * t))
        + cmod (Complex (- real_of_int d * r1) (real_of_int d * r2))"
    by (simp add: norm_triangle_ineq)
  also have "cmod ((z - W) * Complex 1 (real_of_int d * t)) = cmod (z - W) * q"
    by (simp only: norm_mult cq)
  also have "cmod (z - W) * q + cmod (Complex (- real_of_int d * r1) (real_of_int d * r2))
      \<le> gain n * real n * q + 1"
  proof -
    have "cmod (z - W) * q \<le> gain n * real n * q"
      using inv q1 unfolding z_def W_def by (intro mult_right_mono) simp_all
    with ce show ?thesis by linarith
  qed
  also have "\<dots> \<le> gain (Suc n) * real n + gain (Suc n)"
    using g1 by (simp add: gS mult.assoc mult.commute)
  also have "\<dots> = gain (Suc n) * real (Suc n)" by (simp add: distrib_left)
  finally have inv': "cmod (z' - of_real (gain (Suc n)) * z0 * cis \<psi>')
      \<le> gain (Suc n) * real (Suc n)" .
  \<comment> \<open>no overflow in the new vector\<close>
  have "cmod z' \<le> 1768293567"
    using inv' n by (intro rot_state_bound [OF _ R, of "Suc n" _ \<psi>']) simp_all
  then have "\<bar>real_of_int x''\<bar> \<le> 2147483647" "\<bar>real_of_int y''\<bar> \<le> 2147483647"
    using cmod_Complex_int [where x = x'' and y = y''] by (simp_all add: z'_def)
  then have w': "wrap32 x'' = x''" "wrap32 y'' = y''"
    by (simp_all add: wrap32_id in32_of_real_bound)
  \<comment> \<open>the result of the step\<close>
  have "micro_rotation (Suc n) (x, y, \<theta>)
      = (wrap32 (x - d * (wrap32 (y + 2 ^ (i - 1)) div 2 ^ i)),
         wrap32 (y + d * (wrap32 (x + 2 ^ (i - 1)) div 2 ^ i)), \<theta> - d * a)"
    by (simp add: micro_rotation_def Let_def d_def i_def a_def)
  also have "\<dots> = (wrap32 x'', wrap32 y'', \<theta> - d * a)"
    by (simp only: w x''_def y''_def v1_def v2_def)
  also have "\<dots> = (x'', y'', \<theta> - d * a)"
    by (simp only: w')
  finally have res: "x' = x''" "y' = y''" "\<theta>' = \<theta> - d * a"
    using m by simp_all
  \<comment> \<open>the angle\<close>
  have al: "arctan t = alpha (n + 1) * pi / 11796480"
    by (simp add: alpha_def t_def i_def)
  have "real_of_int d * (alpha (n + 1) * pi / 11796480) * 11796480 / pi
      = real_of_int d * alpha (n + 1)" by simp
  then have "\<psi>' * 11796480 / pi = \<psi> * 11796480 / pi + real_of_int d * alpha (n + 1)"
    by (simp add: \<psi>'_def al distrib_right add_divide_distrib)
  then have "real_of_int t0 - real_of_int \<theta>' - \<psi>' * 11796480 / pi
      = (real_of_int t0 - real_of_int \<theta> - \<psi> * 11796480 / pi)
        + real_of_int d * (real_of_int a - alpha (n + 1))"
    by (simp add: res right_diff_distrib)
  moreover have "\<bar>real_of_int d * (real_of_int a - alpha (n + 1))\<bar> \<le> cordic_eps ! n"
    using alpha_table [OF n] dr by (auto simp: a_def abs_mult)
  ultimately have ang': "\<bar>real_of_int t0 - real_of_int \<theta>' - \<psi>' * 11796480 / pi\<bar>
      \<le> eps_sum (Suc n)"
    using ang by (simp add: eps_sum_Suc [OF n])
  \<comment> \<open>the remaining angle\<close>
  have "\<bar>\<theta> - d * a\<bar> \<le> theta_bound (Suc n)"
    using th theta_bound_Suc [OF n] table_converges [OF n] table_nonneg [OF n]
    unfolding d_def a_def by (cases "\<theta> < 0") simp_all
  with inv' ang' show ?thesis
    by (intro exI [of _ \<psi>']) (simp add: res z'_def)
qed

section \<open>The pseudo-rotation of the unit vector\<close>


lemma rot_fold:
  fixes x0 y0 t0 :: int
  assumes R: "cmod (Complex (real_of_int x0) (real_of_int y0)) \<le> 1518500250"
    and t0: "\<bar>t0\<bar> \<le> PVG_FT_ANGLE_PI4"
    and n: "n \<le> 22"
    and f: "foldl (\<lambda>s i. micro_rotation i s) (x0, y0, t0) [1..<Suc n] = (x, y, \<theta>)"
  shows "\<exists>\<psi>. cmod (Complex (real_of_int x) (real_of_int y)
                  - of_real (gain n) * Complex (real_of_int x0) (real_of_int y0) * cis \<psi>)
              \<le> gain n * real n
      \<and> \<bar>real_of_int t0 - real_of_int \<theta> - \<psi> * 11796480 / pi\<bar> \<le> eps_sum n
      \<and> \<bar>\<theta>\<bar> \<le> theta_bound n"
  using n f
proof (induction n arbitrary: x y \<theta>)
  case 0
  then have s: "x = x0" "y = y0" "\<theta> = t0" by simp_all
  have "\<bar>t0\<bar> \<le> theta_bound 0"
    using t0 by (simp add: theta_bound_def ft_trig_arctan_table_def angle_defs)
  then show ?case
    by (intro exI [of _ 0]) (simp add: s gain_def eps_sum_def)
next
  case (Suc n)
  obtain x1 y1 t1 where s1: "foldl (\<lambda>s i. micro_rotation i s) (x0, y0, t0) [1..<Suc n] = (x1, y1, t1)"
    by (cases "foldl (\<lambda>s i. micro_rotation i s) (x0, y0, t0) [1..<Suc n]")
  have n: "n < 22" using Suc.prems(1) by simp
  then have "n \<le> 22" by simp
  from Suc.IH [OF this s1] obtain \<psi> where
    inv: "cmod (Complex (real_of_int x1) (real_of_int y1)
           - of_real (gain n) * Complex (real_of_int x0) (real_of_int y0) * cis \<psi>)
          \<le> gain n * real n"
    and ang: "\<bar>real_of_int t0 - real_of_int t1 - \<psi> * 11796480 / pi\<bar> \<le> eps_sum n"
    and th: "\<bar>t1\<bar> \<le> theta_bound n"
    by blast
  have "[1..<Suc (Suc n)] = [1..<Suc n] @ [Suc n]" by simp
  then have "micro_rotation (Suc n) (x1, y1, t1) = (x, y, \<theta>)"
    using Suc.prems(2) s1 by (simp only: foldl_append) simp
  from rot_step [OF n R inv ang th this] show ?case .
qed

lemma cis_quarter: "cis (a + pi / 2) = cis a * \<i>" "cis (a - pi / 2) = cis a * (- \<i>)"
  by (simp_all add: complex_eq_iff cos_add sin_add cos_diff sin_diff)

lemma quarter_turns_complex:
  "quarter_turns s = (x', y', t') \<Longrightarrow> \<bar>fst s\<bar> \<le> 2147483647 \<Longrightarrow> \<bar>fst (snd s)\<bar> \<le> 2147483647
   \<Longrightarrow> Complex (real_of_int x') (real_of_int y')
       = Complex (real_of_int (fst s)) (real_of_int (fst (snd s)))
         * cis (real_of_int (snd (snd s) - t') * pi / 11796480)"
proof (induction s rule: quarter_turns.induct)
  case (1 x y theta)
  have b: "\<bar>x\<bar> \<le> 2147483647" "\<bar>y\<bar> \<le> 2147483647" using "1.prems" by simp_all
  then have "in32 (- x)" "in32 (- y)"
    unfolding in32_def by linarith+
  then have w: "wrap32 (- x) = - x" "wrap32 (- y) = - y"
    by (simp_all add: wrap32_id)
  consider (up) "theta < - PVG_FT_ANGLE_PI4"
    | (down) "\<not> theta < - PVG_FT_ANGLE_PI4" "theta > PVG_FT_ANGLE_PI4"
    | (stay) "\<not> theta < - PVG_FT_ANGLE_PI4" "\<not> theta > PVG_FT_ANGLE_PI4" by blast
  then show ?case
  proof cases
    case up
    then have q: "quarter_turns (y, - x, theta + PVG_FT_ANGLE_PI2) = (x', y', t')"
      using "1.prems"(1) by (subst (asm) quarter_turns.simps) (simp add: w)
    have "Complex (real_of_int x') (real_of_int y')
        = Complex (real_of_int y) (real_of_int (- x))
          * cis (real_of_int (theta + PVG_FT_ANGLE_PI2 - t') * pi / 11796480)"
      using "1.IH"(1) [OF up] q b by (simp add: w)
    also have "real_of_int (theta + PVG_FT_ANGLE_PI2 - t') * pi / 11796480
        = real_of_int (theta - t') * pi / 11796480 + pi / 2"
      by (simp add: angle_defs field_simps)
    also have "Complex (real_of_int y) (real_of_int (- x))
          * cis (real_of_int (theta - t') * pi / 11796480 + pi / 2)
        = Complex (real_of_int x) (real_of_int y) * cis (real_of_int (theta - t') * pi / 11796480)"
      by (simp add: cis_quarter complex_eq_iff)
    finally show ?thesis by simp
  next
    case down
    then have q: "quarter_turns (- y, x, theta - PVG_FT_ANGLE_PI2) = (x', y', t')"
      using "1.prems"(1) by (subst (asm) quarter_turns.simps) (simp add: w)
    have "Complex (real_of_int x') (real_of_int y')
        = Complex (real_of_int (- y)) (real_of_int x)
          * cis (real_of_int (theta - PVG_FT_ANGLE_PI2 - t') * pi / 11796480)"
      using "1.IH"(2) [OF down] q b by (simp add: w)
    also have "real_of_int (theta - PVG_FT_ANGLE_PI2 - t') * pi / 11796480
        = real_of_int (theta - t') * pi / 11796480 - pi / 2"
      by (simp add: angle_defs field_simps)
    also have "Complex (real_of_int (- y)) (real_of_int x)
          * cis (real_of_int (theta - t') * pi / 11796480 - pi / 2)
        = Complex (real_of_int x) (real_of_int y) * cis (real_of_int (theta - t') * pi / 11796480)"
      by (simp add: cis_quarter complex_eq_iff)
    finally show ?thesis by simp
  next
    case stay
    then have "(x', y', t') = (x, y, theta)"
      using "1.prems"(1) by (subst (asm) quarter_turns.simps) simp
    then show ?thesis by simp
  qed
qed

lemma cos_lipschitz: "\<bar>cos a - cos b\<bar> \<le> \<bar>a - b\<bar>" for a b :: real
proof -
  have "\<bar>cos a - cos b\<bar> = 2 * \<bar>sin ((a + b) / 2)\<bar> * \<bar>sin ((b - a) / 2)\<bar>"
    by (simp add: cos_diff_cos abs_mult)
  also have "\<dots> \<le> 2 * 1 * \<bar>(b - a) / 2\<bar>"
    by (intro mult_mono abs_sin_x_le_abs_x) simp_all
  finally show ?thesis by simp
qed

lemma gain_22_scale:
  "16777215 \<le> gain 22 * 14408027" "gain 22 * 14408027 \<le> 16777216"
proof -
  have l: "(16777215 / 14408027)\<^sup>2 \<le> gain_sq 22"
    by (simp add: eval_nat_numeral)
  have u: "gain_sq 22 \<le> (16777216 / 14408027)\<^sup>2"
    by (simp add: eval_nat_numeral)
  have "16777215 / 14408027 \<le> gain 22"
    unfolding gain_def using l by (rule real_le_rsqrt)
  then show "16777215 \<le> gain 22 * 14408027" by (simp add: field_simps)
  have "gain 22 \<le> 16777216 / 14408027"
    unfolding gain_def using u by (intro real_le_lsqrt) simp_all
  then show "gain 22 * 14408027 \<le> 16777216" by (simp add: field_simps)
qed


lemma theta_bound_22: "theta_bound 22 = 1"
  by (simp add: theta_bound_def ft_trig_arctan_table_def)

lemma eps_sum_22: "eps_sum 22 = (579 / 100)"
  by (simp add: eps_sum_def cordic_eps_def)

lemma Cos_accuracy:
  "\<bar>real_of_int (PVG_FT_Cos angle) - 65536 * cos (real_of_int angle * pi / 11796480)\<bar> \<le> 3 / 4"
proof -
  obtain x0 y0 t0 where q: "quarter_turns (14408027, 0, angle) = (x0, y0, t0)"
    by (cases "quarter_turns (14408027, 0, angle)")
  obtain x y \<theta> where
    f: "foldl (\<lambda>s i. micro_rotation i s) (x0, y0, t0) [1..<Suc 22] = (x, y, \<theta>)"
    by (cases "foldl (\<lambda>s i. micro_rotation i s) (x0, y0, t0) [1..<Suc 22]")
  define z0 where "z0 = Complex (real_of_int x0) (real_of_int y0)"
  define z where "z = Complex (real_of_int x) (real_of_int y)"
  define \<phi> where "\<phi> = real_of_int angle * pi / 11796480"
  define G where "G = gain 22 * 14408027"
  have z0: "z0 = of_real 14408027 * cis (real_of_int (angle - t0) * pi / 11796480)"
    using quarter_turns_complex [OF q] by (simp add: z0_def Complex_eq)
  then have cz0: "cmod z0 \<le> 1518500250"
    by (simp add: norm_mult)
  have t0: "\<bar>t0\<bar> \<le> PVG_FT_ANGLE_PI4"
    using quarter_turns_range [OF q] by linarith
  from rot_fold [OF cz0 [unfolded z0_def] t0 _ f] obtain \<psi> where
    inv: "cmod (z - of_real (gain 22) * z0 * cis \<psi>) \<le> gain 22 * real 22"
    and ang: "\<bar>real_of_int t0 - real_of_int \<theta> - \<psi> * 11796480 / pi\<bar> \<le> eps_sum 22"
    and th: "\<bar>\<theta>\<bar> \<le> theta_bound 22"
    unfolding z_def z0_def by auto
  \<comment> \<open>the value returned\<close>
  have "rotate_loop 1 1 (x0, y0, t0) = (x, y, \<theta>)"
    using f by (subst rotate_loop_fold) simp_all
  then have rot: "ft_trig_pseudo_rotate \<lparr>vec_x = 14408027, vec_y = 0\<rparr> angle
      = \<lparr>vec_x = x, vec_y = y\<rparr>"
    by (simp add: ft_trig_pseudo_rotate_def quarter_turns_eq q)
  have "cmod z \<le> 1768293567"
    using inv by (intro rot_state_bound [OF _ cz0, of 22 _ \<psi>]) simp_all
  then have "\<bar>real_of_int x\<bar> \<le> 1768293567"
    using cmod_Complex_int(1) [where x = x and y = y] by (simp add: z_def)
  then have "in32 (x + 128)" unfolding in32_def by linarith
  then have cosv: "PVG_FT_Cos angle = (x + 2 ^ (8 - 1)) div 2 ^ 8"
    by (simp add: PVG_FT_Cos_def PVG_FT_TRIG_SCALE_def rot wrap32_id)
  have rnd: "\<bar>real_of_int (PVG_FT_Cos angle) - real_of_int x / 256\<bar> \<le> 1 / 2"
    unfolding cosv using round_shift [of 8 x] by simp
  \<comment> \<open>the angle reached\<close>
  define \<delta> where "\<delta> = \<psi> - real_of_int t0 * pi / 11796480"
  have "real_of_int \<bar>\<theta>\<bar> \<le> real_of_int 1"
    using th by (simp only: theta_bound_22 of_int_le_iff)
  then have thr: "\<bar>real_of_int \<theta>\<bar> \<le> 1" by simp
  have "\<bar>real_of_int t0 - \<psi> * 11796480 / pi\<bar> \<le> (679 / 100)"
    using ang thr unfolding eps_sum_22 by linarith
  then have "\<bar>real_of_int t0 - \<psi> * 11796480 / pi\<bar> * (pi / 11796480) \<le> (679 / 100) * (pi / 11796480)"
    by (intro mult_right_mono) simp_all
  moreover have "\<bar>real_of_int t0 - \<psi> * 11796480 / pi\<bar> * (pi / 11796480) = \<bar>\<delta>\<bar>"
  proof -
    have "\<bar>real_of_int t0 - \<psi> * 11796480 / pi\<bar> * (pi / 11796480)
        = \<bar>(real_of_int t0 - \<psi> * 11796480 / pi) * (pi / 11796480)\<bar>"
      by (simp add: abs_mult)
    also have "(real_of_int t0 - \<psi> * 11796480 / pi) * (pi / 11796480) = - \<delta>"
      by (simp add: \<delta>_def field_simps)
    finally show ?thesis by simp
  qed
  moreover have "(679 / 100) * (pi / 11796480) \<le> ((181 / 100) / 1000000 :: real)"
    using pi_bounds(2) by simp
  ultimately have dl: "\<bar>\<delta>\<bar> \<le> (181 / 100) / 1000000" by linarith
  \<comment> \<open>the vector reached\<close>
  have "real_of_int (angle - t0) * pi / 11796480 + \<psi> = \<phi> + \<delta>"
    by (simp add: \<phi>_def \<delta>_def field_simps)
  then have W: "of_real (gain 22) * z0 * cis \<psi> = of_real G * cis (\<phi> + \<delta>)"
    by (simp add: z0 G_def cis_mult)
  have "\<bar>Re (z - of_real G * cis (\<phi> + \<delta>))\<bar> \<le> cmod (z - of_real G * cis (\<phi> + \<delta>))"
    by (rule abs_Re_le_cmod)
  with inv W have 1: "\<bar>real_of_int x - G * cos (\<phi> + \<delta>)\<bar> \<le> gain 22 * 22"
    by (simp add: z_def)
  have g22: "gain 22 * 22 \<le> (2562 / 100)" using gain_le [of 22] by simp
  have G: "16777215 \<le> G" "G \<le> 16777216"
    using gain_22_scale by (simp_all add: G_def)
  have "\<bar>G * cos (\<phi> + \<delta>) - G * cos \<phi>\<bar> = G * \<bar>cos (\<phi> + \<delta>) - cos \<phi>\<bar>"
    using G by (simp add: abs_mult flip: right_diff_distrib)
  also have "\<dots> \<le> 16777216 * ((181 / 100) / 1000000)"
    using G dl cos_lipschitz [of "\<phi> + \<delta>" \<phi>] by (intro mult_mono) simp_all
  finally have 2: "\<bar>G * cos (\<phi> + \<delta>) - G * cos \<phi>\<bar> \<le> (304 / 10)" by simp
  have "\<bar>G * cos \<phi> - 16777216 * cos \<phi>\<bar> = \<bar>G - 16777216\<bar> * \<bar>cos \<phi>\<bar>"
    by (simp add: abs_mult flip: left_diff_distrib)
  also have "\<dots> \<le> 1 * 1"
    using G by (intro mult_mono) simp_all
  finally have 3: "\<bar>G * cos \<phi> - 16777216 * cos \<phi>\<bar> \<le> 1" by simp
  from 1 2 3 g22 have "\<bar>real_of_int x - 16777216 * cos \<phi>\<bar> \<le> (5702 / 100)" by linarith
  then have "\<bar>real_of_int x / 256 - 65536 * cos \<phi>\<bar> \<le> (5702 / 100) / 256"
    by linarith
  with rnd show ?thesis unfolding \<phi>_def by linarith
qed


lemma Sin_accuracy:
  assumes "in32 (PVG_FT_ANGLE_PI2 - angle)"
  shows "\<bar>real_of_int (PVG_FT_Sin angle) - 65536 * sin (real_of_int angle * pi / 11796480)\<bar>
         \<le> 3 / 4"
proof -
  have "real_of_int (PVG_FT_ANGLE_PI2 - angle) * pi / 11796480
      = pi / 2 - real_of_int angle * pi / 11796480"
    by (simp add: angle_defs field_simps)
  then have "cos (real_of_int (PVG_FT_ANGLE_PI2 - angle) * pi / 11796480)
      = sin (real_of_int angle * pi / 11796480)"
    by (simp only: cos_diff) simp
  then show ?thesis
    using Cos_accuracy [of "PVG_FT_ANGLE_PI2 - angle"]
    by (simp add: PVG_FT_Sin_def wrap32_id [OF assms])
qed

lemma square_near:
  fixes c u :: real
  assumes "\<bar>c - 65536 * u\<bar> \<le> 3 / 4" "\<bar>u\<bar> \<le> 1"
  shows "\<bar>c\<^sup>2 - (65536 * u)\<^sup>2\<bar> \<le> 98305"
proof -
  have "c\<^sup>2 - (65536 * u)\<^sup>2 = (c - 65536 * u) * (c + 65536 * u)"
    by (simp add: power2_eq_square algebra_simps)
  then have "\<bar>c\<^sup>2 - (65536 * u)\<^sup>2\<bar> = \<bar>c - 65536 * u\<bar> * \<bar>c + 65536 * u\<bar>"
    by (simp add: abs_mult)
  also have "\<dots> \<le> 3 / 4 * (131072 + 3 / 4)"
  proof -
    have "\<bar>c + 65536 * u\<bar> \<le> 131072 + 3 / 4" using assms by linarith
    with assms(1) show ?thesis by (intro mult_mono) simp_all
  qed
  finally show ?thesis by simp
qed

text \<open>
  C1: for every angle \<open>angle\<close> in \<open>[-720, 720]\<close> degrees (16.16 representation), the
  values of \<open>PVG_FT_Cos\<close> and \<open>PVG_FT_Sin\<close>, read as 16.16 fixed-point reals, satisfy
  \<open>cos\<^sup>2 + sin\<^sup>2 = 1\<close> within \<open>2^-10\<close>.  (Each value is within three quarters of a
  unit in the last place of the exact cosine or sine, \<open>Cos_accuracy\<close> and
  \<open>Sin_accuracy\<close>.)
\<close>

theorem cos_sin_unit_norm:
  assumes "- (720 * 65536) \<le> angle" "angle \<le> 720 * 65536"
  shows "\<bar>(real_of_int (PVG_FT_Cos angle) / 65536)\<^sup>2
          + (real_of_int (PVG_FT_Sin angle) / 65536)\<^sup>2 - 1\<bar> \<le> 1 / 2 ^ 10"
proof -
  define \<phi> where "\<phi> = real_of_int angle * pi / 11796480"
  define c where "c = real_of_int (PVG_FT_Cos angle)"
  define s where "s = real_of_int (PVG_FT_Sin angle)"
  have "in32 (PVG_FT_ANGLE_PI2 - angle)"
    using assms by (simp add: in32_def angle_defs)
  then have s: "\<bar>s - 65536 * sin \<phi>\<bar> \<le> 3 / 4"
    unfolding s_def \<phi>_def by (rule Sin_accuracy)
  have c: "\<bar>c - 65536 * cos \<phi>\<bar> \<le> 3 / 4"
    unfolding c_def \<phi>_def by (rule Cos_accuracy)
  have e: "(cos \<phi>)\<^sup>2 + (sin \<phi>)\<^sup>2 = 1" by simp
  have "(65536 * cos \<phi>)\<^sup>2 = 4294967296 * (cos \<phi>)\<^sup>2"
    "(65536 * sin \<phi>)\<^sup>2 = 4294967296 * (sin \<phi>)\<^sup>2"
    by (simp_all add: power_mult_distrib)
  with e have one: "(65536 * cos \<phi>)\<^sup>2 + (65536 * sin \<phi>)\<^sup>2 = 4294967296"
    by linarith
  have "\<bar>c\<^sup>2 - (65536 * cos \<phi>)\<^sup>2\<bar> \<le> 98305"
    by (rule square_near [OF c]) simp
  moreover have "\<bar>s\<^sup>2 - (65536 * sin \<phi>)\<^sup>2\<bar> \<le> 98305"
    by (rule square_near [OF s]) simp
  ultimately have "\<bar>c\<^sup>2 + s\<^sup>2 - 4294967296\<bar> \<le> 196610" using one by linarith
  then have "\<bar>c\<^sup>2 / 4294967296 + s\<^sup>2 / 4294967296 - 1\<bar> \<le> 1 / 1024"
    by linarith
  then show ?thesis unfolding c_def s_def by (simp add: power_divide)
qed

theorem cos_sin_unit_norm_witness:
  "\<bar>(real_of_int (PVG_FT_Cos 21000984) / 65536)\<^sup>2
     + (real_of_int (PVG_FT_Sin 21000984) / 65536)\<^sup>2 - 1\<bar> \<le> 1 / 2 ^ 10
   \<and> PVG_FT_Cos 21000984 = 50533 \<and> PVG_FT_Sin 21000984 = - 41731"
proof -
  have "PVG_FT_Cos 21000984 = 50533" "PVG_FT_Sin 21000984 = - 41731"
    by code_simp+
  then show ?thesis using cos_sin_unit_norm [of 21000984] by simp
qed

section \<open>The vectoring loop: bounds on the angle\<close>

lemma arctan_lipschitz: "\<bar>arctan u - arctan v\<bar> \<le> \<bar>u - v\<bar>"
proof -
  have *: "arctan b - arctan a \<le> b - a \<and> 0 \<le> arctan b - arctan a" if "a < b" for a b :: real
  proof -
    from MVT2 [OF that, of arctan "\<lambda>x. inverse (1 + x\<^sup>2)"] obtain z where
      z: "arctan b - arctan a = (b - a) * inverse (1 + z\<^sup>2)"
      using DERIV_arctan by blast
    have "0 < inverse (1 + z\<^sup>2)" "inverse (1 + z\<^sup>2) \<le> 1"
      by (simp_all add: add_pos_nonneg inverse_le_1_iff)
    then have "(b - a) * inverse (1 + z\<^sup>2) \<le> (b - a) * 1"
      "0 \<le> (b - a) * inverse (1 + z\<^sup>2)"
      using that by (simp_all add: mult_left_le)
    with z show ?thesis by simp
  qed
  consider "u < v" | "u = v" | "v < u" by linarith
  then show ?thesis
  proof cases
    case 1 with * [of u v] show ?thesis by simp
  next
    case 2 then show ?thesis by simp
  next
    case 3 with * [of v u] show ?thesis by simp
  qed
qed

lemma pol_bound_diff:
  assumes "n < 22"
  shows "pol_bound n - pol_bound (Suc n)
         = real_of_int (ft_trig_arctan_table ! n) - cordic_eps ! n - 7 / 1000"
proof -
  have "real_of_int (theta_bound n)
      = real_of_int (ft_trig_arctan_table ! n) + real_of_int (theta_bound (Suc n))"
    by (simp add: theta_bound_Suc [OF assms])
  moreover have "real (Suc n) = real n + 1" by simp
  ultimately show ?thesis
    unfolding pol_bound_def eps_sum_Suc [OF assms] of_int_diff by (simp add: field_simps)
qed

lemma pol_bound_covers:
  assumes "n < 22"
  shows "real_of_int (ft_trig_arctan_table ! n) + cordic_eps ! n + 7 / 1000 \<le> pol_bound (Suc n)"
  using less_22_cases [OF assms]
  by (elim disjE)
    (simp_all add: pol_bound_def theta_bound_def eps_sum_def ft_trig_arctan_table_def
      cordic_eps_def)

lemma pol_bound_22: "pol_bound 22 = 6"
  by (simp add: pol_bound_def theta_bound_22)

lemma pol_bound_0: "2949120 \<le> pol_bound 0"
  by (simp add: pol_bound_def theta_bound_def eps_sum_def ft_trig_arctan_table_def cordic_eps_def)

lemma pol_bound_mono:
  assumes "n < 22"
  shows "pol_bound (Suc n) \<le> pol_bound n"
proof -
  have "0 \<le> real_of_int (ft_trig_arctan_table ! n) - cordic_eps ! n - 7 / 1000"
    using less_22_cases [OF assms]
    by (elim disjE) (simp_all add: ft_trig_arctan_table_def cordic_eps_def)
  with pol_bound_diff [OF assms] show ?thesis by linarith
qed

lemma pol_bound_1: "pol_bound 1 \<le> 1855845"
  by (simp add: pol_bound_def theta_bound_def eps_sum_def ft_trig_arctan_table_def cordic_eps_def)

lemma pol_bound_le:
  assumes "1 \<le> n" "n \<le> 22"
  shows "pol_bound n \<le> 1855845"
  using assms
proof (induction n)
  case 0
  then show ?case by simp
next
  case (Suc n)
  show ?case
  proof (cases "n = 0")
    case True
    then show ?thesis using pol_bound_1 by simp
  next
    case False
    with Suc have "pol_bound n \<le> 1855845" by simp
    moreover have "pol_bound (Suc n) \<le> pol_bound n"
      using Suc.prems by (intro pol_bound_mono) simp
    ultimately show ?thesis by simp
  qed
qed

lemma shift_sign:
  fixes y :: int
  assumes "1 \<le> i"
  shows "0 < y \<Longrightarrow> 0 \<le> (y + 2 ^ (i - 1)) div 2 ^ i"
    and "y \<le> 0 \<Longrightarrow> (y + 2 ^ (i - 1)) div 2 ^ i \<le> 0"
proof -
  have p: "(2::int) ^ i = 2 * 2 ^ (i - 1)" "(0::int) < 2 ^ (i - 1)"
    using assms by (simp_all flip: power_Suc)
  show "0 \<le> (y + 2 ^ (i - 1)) div 2 ^ i" if "0 < y"
    using that p by (intro pos_imp_zdiv_nonneg_iff [THEN iffD2]) simp_all
  show "(y + 2 ^ (i - 1)) div 2 ^ i \<le> 0" if "y \<le> 0"
  proof -
    have "(y + 2 ^ (i - 1)) div 2 ^ i \<le> 2 ^ (i - 1) div (2::int) ^ i"
      using that p by (intro zdiv_mono1) simp_all
    also have "\<dots> = 0" using p by (intro div_pos_pos_trivial) simp_all
    finally show ?thesis .
  qed
qed

lemma arctan_unit_le:
  assumes "\<bar>arctan w * 11796480 / pi\<bar> \<le> 2949120"
  shows "\<bar>w\<bar> \<le> 1"
proof -
  have "\<bar>arctan w * 11796480 / pi\<bar> = \<bar>arctan w\<bar> * 11796480 / pi"
    by (simp add: abs_mult)
  with assms have "\<bar>arctan w\<bar> * 11796480 \<le> 2949120 * pi"
    by (simp add: field_simps)
  then have "\<bar>arctan w\<bar> \<le> pi / 4" by simp
  then have "arctan w \<le> arctan 1" "arctan (- 1) \<le> arctan w"
    by (simp_all add: arctan_one arctan_minus abs_le_iff)
  then show ?thesis by (simp add: arctan_le_iff abs_le_iff)
qed

lemma ideal_angle:
  fixes u t d :: real
  assumes "\<bar>u\<bar> \<le> 1" "0 < t" "t < 1" "d = 1 \<or> d = - 1"
  shows "arctan ((u - d * t) / (1 + d * t * u)) = arctan u - d * arctan t"
proof -
  have "arctan u + arctan (- (d * t)) = arctan ((u + - (d * t)) / (1 - u * - (d * t)))"
    using assms by (intro arctan_add) auto
  moreover have "arctan (- (d * t)) = - (d * arctan t)"
    using assms(4) by (auto simp: arctan_minus)
  moreover have "(u + - (d * t)) / (1 - u * - (d * t)) = (u - d * t) / (1 + d * t * u)"
    by (simp add: mult.commute mult.left_commute)
  ultimately show ?thesis by (simp add: mult.commute mult.left_commute)
qed

lemma ratio_perturb:
  fixes X Y e1 e2 :: real
  assumes "0 < X + e1" "X \<noteq> 0" "\<bar>e1\<bar> \<le> 1 / 2" "\<bar>e2\<bar> \<le> 1 / 2" "\<bar>Y / X\<bar> \<le> 1"
  shows "\<bar>(Y + e2) / (X + e1) - Y / X\<bar> \<le> 1 / (X + e1)"
proof -
  define w where "w = Y / X"
  have Y: "Y = w * X" using assms(2) by (simp add: w_def)
  have "(Y + e2) - w * (X + e1) = e2 - w * e1"
    by (simp add: Y algebra_simps)
  then have "(Y + e2) / (X + e1) - w = (e2 - w * e1) / (X + e1)"
    using assms(1) by (simp add: field_simps)
  moreover have "\<bar>e2 - w * e1\<bar> \<le> 1"
  proof -
    have "\<bar>w * e1\<bar> \<le> 1 * (1 / 2)"
      unfolding abs_mult using assms(3,5) by (intro mult_mono) (simp_all add: w_def)
    with assms(4) show ?thesis by linarith
  qed
  ultimately have "\<bar>(Y + e2) / (X + e1) - w\<bar> \<le> 1 / (X + e1)"
    using assms(1) by (simp add: divide_right_mono)
  then show ?thesis by (simp add: w_def)
qed

lemma pol_state_bound:
  assumes "n \<le> 22" "cmod z \<le> gain n * (1518500250 + real n)"
  shows "cmod z \<le> 1768293567"
proof -
  have g: "0 \<le> gain n" "gain n \<le> 1.1645"
    using gain_ge_1 [of n] gain_le [OF assms(1)] by simp_all
  have "gain n * (1518500250 + real n) \<le> 1.1645 * (1518500250 + 22)"
    using g assms(1) by (intro mult_mono) simp_all
  also have "\<dots> \<le> 1768293567" by simp
  finally show ?thesis using assms(2) by simp
qed

lemma units_perturb:
  fixes p :: real and x' :: int
  assumes "536870912 \<le> x'" "\<bar>p\<bar> \<le> 1 / real_of_int x'"
  shows "\<bar>p * 11796480 / pi\<bar> \<le> 7 / 1000"
proof -
  have "1 / real_of_int x' \<le> 1 / 536870912"
    using assms(1) by (intro divide_left_mono) simp_all
  with assms(2) have p: "\<bar>p\<bar> \<le> 1 / 536870912" by linarith
  have "\<bar>p * 11796480 / pi\<bar> = \<bar>p\<bar> * (11796480 / pi)"
    by (simp add: abs_mult)
  also have "\<dots> \<le> 1 / 536870912 * (11796480 / pi)"
    using p by (intro mult_right_mono) simp_all
  also have "\<dots> \<le> 1 / 536870912 * (11796480 / 3.14159265)"
    using pi_bounds(1) by (intro mult_left_mono divide_left_mono) simp_all
  also have "\<dots> \<le> 7 / 1000" by simp
  finally show ?thesis .
qed

section \<open>One vectoring step\<close>

lemma pol_step:
  fixes x y \<theta> :: int
  assumes n: "n < 22"
    and x: "536870912 \<le> x" and yx: "\<bar>y\<bar> \<le> x"
    and nb: "cmod (Complex (real_of_int x) (real_of_int y)) \<le> gain n * (1518500250 + real n)"
    and B: "\<bar>ang_units x y\<bar> \<le> pol_bound n"
    and m: "micro_polarize (Suc n) (x, y, \<theta>) = (x', y', \<theta>')"
  shows "x \<le> x' \<and> \<bar>y'\<bar> \<le> x'
     \<and> cmod (Complex (real_of_int x') (real_of_int y'))
         \<le> gain (Suc n) * (1518500250 + real (Suc n))
     \<and> \<bar>ang_units x' y'\<bar> \<le> pol_bound (Suc n)
     \<and> \<bar>(ang_units x' y' + real_of_int \<theta>') - (ang_units x y + real_of_int \<theta>)\<bar>
         \<le> cordic_eps ! n + 7 / 1000"
proof -
  define i where "i = Suc n"
  define t :: real where "t = 1 / 2 ^ i"
  define d :: int where "d = (if y > 0 then 1 else - 1)"
  define v1 where "v1 = (y + 2 ^ (i - 1)) div 2 ^ i"
  define v2 where "v2 = (x + 2 ^ (i - 1)) div 2 ^ i"
  define z where "z = Complex (real_of_int x) (real_of_int y)"
  define r1 where "r1 = real_of_int v1 - real_of_int y * t"
  define r2 where "r2 = real_of_int v2 - real_of_int x * t"
  define a where "a = ft_trig_arctan_table ! n"
  define q where "q = sqrt (1 + t\<^sup>2)"
  have i1: "1 \<le> i" "i \<le> 22" using n by (simp_all add: i_def)
  have d: "d = 1 \<or> d = - 1" by (simp add: d_def)
  have dr: "real_of_int d = 1 \<or> real_of_int d = - 1" using d by auto
  have dr': "- real_of_int d = 1 \<or> - real_of_int d = - 1" using d by auto
  have q1: "1 \<le> q" by (simp add: q_def)
  have gS: "gain (Suc n) = gain n * q" by (simp add: gain_Suc q_def t_def i_def)
  have g1: "1 \<le> gain (Suc n)" by (rule gain_ge_1)
  have g0: "0 \<le> gain n" using gain_ge_1 [of n] by simp
  have t: "0 < t" "t \<le> 1 / 2" "t < 1"
  proof -
    have "(2::real) ^ 1 \<le> 2 ^ i" using i1 by (intro power_increasing) simp_all
    then show "0 < t" "t \<le> 1 / 2" "t < 1" by (simp_all add: t_def field_simps)
  qed
  \<comment> \<open>no overflow in the shifted operands\<close>
  have cz: "cmod z \<le> 1768293567"
    using nb n unfolding z_def by (intro pol_state_bound [of n]) simp_all
  have xb: "\<bar>real_of_int x\<bar> \<le> 1768293567" "\<bar>real_of_int y\<bar> \<le> 1768293567"
    using cz cmod_Complex_int [where x = x and y = y] by (simp_all add: z_def)
  have "(2::int) ^ (i - 1) \<le> 2 ^ 21"
    using i1 by (intro power_increasing) simp_all
  then have p2: "(2::int) ^ (i - 1) \<le> 2097152" "(0::int) < 2 ^ (i - 1)"
    by simp_all
  have xi: "\<bar>x\<bar> \<le> 1768293567" "\<bar>y\<bar> \<le> 1768293567"
    using xb by linarith+
  have "in32 (y + 2 ^ (i - 1))" "in32 (x + 2 ^ (i - 1))"
    unfolding in32_def using xi p2 by linarith+
  then have w: "wrap32 (y + 2 ^ (i - 1)) = y + 2 ^ (i - 1)"
    "wrap32 (x + 2 ^ (i - 1)) = x + 2 ^ (i - 1)"
    by (simp_all add: wrap32_id)
  have r: "\<bar>r1\<bar> \<le> 1 / 2" "\<bar>r2\<bar> \<le> 1 / 2"
    using round_shift [OF i1(1), of y] round_shift [OF i1(1), of x]
    by (simp_all add: r1_def r2_def v1_def v2_def t_def)
  \<comment> \<open>the new vector before wrap-around\<close>
  define x'' where "x'' = x + d * v1"
  define y'' where "y'' = y - d * v2"
  define z' where "z' = Complex (real_of_int x'') (real_of_int y'')"
  have z'_eq: "z' = z * Complex 1 (- real_of_int d * t)
      + Complex (real_of_int d * r1) (- real_of_int d * r2)"
  proof (rule complex_eqI)
    show "Re z' = Re (z * Complex 1 (- real_of_int d * t)
        + Complex (real_of_int d * r1) (- real_of_int d * r2))"
      by (simp add: z'_def z_def x''_def r1_def right_diff_distrib)
    show "Im z' = Im (z * Complex 1 (- real_of_int d * t)
        + Complex (real_of_int d * r1) (- real_of_int d * r2))"
      by (simp add: z'_def z_def y''_def r2_def right_diff_distrib)
  qed
  have "Complex 1 (- real_of_int d * t) = of_real q * cis (- real_of_int d * arctan t)"
    unfolding q_def using dr' by (rule complex_micro_rotation)
  then have cq: "cmod (Complex 1 (- real_of_int d * t)) = q"
    using q1 by (simp add: norm_mult)
  have ce: "cmod (Complex (real_of_int d * r1) (- real_of_int d * r2)) \<le> 1"
  proof -
    have "(real_of_int d * r1)\<^sup>2 \<le> (1 / 2)\<^sup>2" "(real_of_int d * r2)\<^sup>2 \<le> (1 / 2)\<^sup>2"
      using r dr by (auto simp: abs_le_square_iff [symmetric])
    then have "(real_of_int d * r1)\<^sup>2 + (real_of_int d * r2)\<^sup>2 \<le> 1\<^sup>2"
      by (simp add: power2_eq_square)
    then have "sqrt ((real_of_int d * r1)\<^sup>2 + (real_of_int d * r2)\<^sup>2) \<le> 1"
      by (intro real_le_lsqrt) simp_all
    then show ?thesis
      by (simp add: cmod_def)
  qed
  have "cmod z' \<le> cmod (z * Complex 1 (- real_of_int d * t))
      + cmod (Complex (real_of_int d * r1) (- real_of_int d * r2))"
    unfolding z'_eq by (rule norm_triangle_ineq)
  also have "cmod (z * Complex 1 (- real_of_int d * t)) = cmod z * q"
    by (simp only: norm_mult cq)
  also have "cmod z * q + cmod (Complex (real_of_int d * r1) (- real_of_int d * r2))
      \<le> gain n * (1518500250 + real n) * q + 1"
  proof -
    have "cmod z * q \<le> gain n * (1518500250 + real n) * q"
      using nb q1 unfolding z_def by (intro mult_right_mono) simp_all
    with ce show ?thesis by linarith
  qed
  also have "\<dots> = gain (Suc n) * (1518500250 + real n) + 1"
    by (simp add: gS mult.assoc mult.commute)
  also have "\<dots> \<le> gain (Suc n) * (1518500250 + real n) + gain (Suc n)"
    using g1 by simp
  also have "\<dots> = gain (Suc n) * (1518500250 + real (Suc n))"
    by (simp add: distrib_left)
  finally have nb': "cmod z' \<le> gain (Suc n) * (1518500250 + real (Suc n))" .
  \<comment> \<open>no overflow in the new vector\<close>
  have "cmod z' \<le> 1768293567"
    using nb' n by (intro pol_state_bound [of "Suc n"]) simp_all
  then have "\<bar>real_of_int x''\<bar> \<le> 2147483647" "\<bar>real_of_int y''\<bar> \<le> 2147483647"
    using cmod_Complex_int [where x = x'' and y = y''] by (simp_all add: z'_def)
  then have w': "wrap32 x'' = x''" "wrap32 y'' = y''"
    by (simp_all add: wrap32_id in32_of_real_bound)
  \<comment> \<open>the result of the step\<close>
  have "micro_polarize (Suc n) (x, y, \<theta>)
      = (wrap32 (x + d * (wrap32 (y + 2 ^ (i - 1)) div 2 ^ i)),
         wrap32 (y - d * (wrap32 (x + 2 ^ (i - 1)) div 2 ^ i)), \<theta> + d * a)"
    by (simp add: micro_polarize_def Let_def d_def i_def a_def)
  also have "\<dots> = (wrap32 x'', wrap32 y'', \<theta> + d * a)"
    by (simp only: w x''_def y''_def v1_def v2_def)
  also have "\<dots> = (x'', y'', \<theta> + d * a)"
    by (simp only: w')
  finally have res: "x' = x''" "y' = y''" "\<theta>' = \<theta> + d * a"
    using m by simp_all
  \<comment> \<open>the abscissa grows\<close>
  have xx: "x \<le> x''"
  proof (cases "0 < y")
    case True
    then have "0 \<le> v1" unfolding v1_def by (rule shift_sign(1) [OF i1(1)])
    with True show ?thesis by (simp add: x''_def d_def)
  next
    case False
    then have "v1 \<le> 0" unfolding v1_def by (intro shift_sign(2) [OF i1(1)]) simp
    with False show ?thesis by (simp add: x''_def d_def)
  qed
  have xpos: "0 < real_of_int x" "0 < real_of_int x''" "536870912 \<le> x''"
    using x xx by simp_all
  \<comment> \<open>the ideal step turns the vector by the exact angle\<close>
  define u where "u = real_of_int y / real_of_int x"
  define X where "X = real_of_int x + real_of_int d * t * real_of_int y"
  define Y where "Y = real_of_int y - real_of_int d * t * real_of_int x"
  have u1: "\<bar>u\<bar> \<le> 1"
    using yx xpos(1) by (simp add: u_def abs_le_iff field_simps)
  have "\<bar>real_of_int d * t * u\<bar> \<le> 1 * (1 / 2) * 1"
    unfolding abs_mult using dr t u1 by (intro mult_mono) auto
  then have du: "1 / 2 \<le> 1 + real_of_int d * t * u"
    by (simp add: abs_le_iff)
  have Xu: "X = real_of_int x * (1 + real_of_int d * t * u)"
    using xpos(1) by (simp add: X_def u_def algebra_simps)
  have Yu: "Y = real_of_int x * (u - real_of_int d * t)"
    using xpos(1) by (simp add: Y_def u_def algebra_simps)
  have Xpos: "0 < X" unfolding Xu using xpos(1) du by (intro mult_pos_pos) simp_all
  have "Y / X = (u - real_of_int d * t) / (1 + real_of_int d * t * u)"
    unfolding Xu Yu using xpos(1) by simp
  then have "arctan (Y / X) = arctan u - real_of_int d * arctan t"
    using ideal_angle [OF u1 t(1) t(3) dr] by simp
  moreover have al: "arctan t = alpha (n + 1) * pi / 11796480"
    by (simp add: alpha_def t_def i_def)
  ultimately have "arctan (Y / X) * 11796480 / pi
      = arctan u * 11796480 / pi - real_of_int d * alpha (n + 1)"
    by (simp add: field_simps)
  then have angI: "arctan (Y / X) * 11796480 / pi
      = ang_units x y - real_of_int d * alpha (n + 1)"
    by (simp add: ang_units_def u_def)
  \<comment> \<open>the remaining angle after the ideal step\<close>
  have ae: "\<bar>alpha (n + 1) - real_of_int a\<bar> \<le> cordic_eps ! n"
    unfolding a_def by (rule alpha_table [OF n])
  have cov: "real_of_int a + cordic_eps ! n + 7 / 1000 \<le> pol_bound (Suc n)"
    unfolding a_def by (rule pol_bound_covers [OF n])
  have dif: "pol_bound n - pol_bound (Suc n) = real_of_int a - cordic_eps ! n - 7 / 1000"
    unfolding a_def by (rule pol_bound_diff [OF n])
  have a0: "0 \<le> alpha (n + 1)" by (simp add: alpha_def)
  have sgn: "(0 < y \<longrightarrow> 0 < ang_units x y) \<and> (\<not> 0 < y \<longrightarrow> ang_units x y \<le> 0)"
    using xpos(1) by (simp add: ang_units_def zero_less_mult_iff mult_le_0_iff
        zero_less_divide_iff divide_le_0_iff)
  have I: "\<bar>ang_units x y - real_of_int d * alpha (n + 1)\<bar> \<le> pol_bound (Suc n) - 7 / 1000"
  proof (cases "0 < y")
    case True
    then have "real_of_int d = 1" "0 < ang_units x y" using sgn by (simp_all add: d_def)
    with B ae cov dif a0 show ?thesis by (simp add: abs_le_iff; linarith)
  next
    case False
    then have "real_of_int d = - 1" "ang_units x y \<le> 0" using sgn by (simp_all add: d_def)
    with B ae cov dif a0 show ?thesis by (simp add: abs_le_iff; linarith)
  qed
  have pb: "pol_bound (Suc n) \<le> 1855845"
    using n by (intro pol_bound_le) simp_all
  have YX1: "\<bar>Y / X\<bar> \<le> 1"
    using I pb unfolding angI [symmetric] by (intro arctan_unit_le) linarith
  \<comment> \<open>the rounding of the shifts moves the angle by little\<close>
  have x''r: "real_of_int x'' = X + real_of_int d * r1"
    by (simp add: x''_def X_def r1_def algebra_simps)
  have y''r: "real_of_int y'' = Y + (- real_of_int d * r2)"
    by (simp add: y''_def Y_def r2_def algebra_simps)
  have e: "\<bar>real_of_int d * r1\<bar> \<le> 1 / 2" "\<bar>- real_of_int d * r2\<bar> \<le> 1 / 2"
    using r dr by (auto simp: abs_mult)
  have "\<bar>(Y + (- real_of_int d * r2)) / (X + real_of_int d * r1) - Y / X\<bar>
      \<le> 1 / (X + real_of_int d * r1)"
    using xpos(2) Xpos e YX1 unfolding x''r by (intro ratio_perturb) simp_all
  then have rp: "\<bar>real_of_int y'' / real_of_int x'' - Y / X\<bar> \<le> 1 / real_of_int x''"
    by (simp only: x''r y''r)
  have "\<bar>arctan (real_of_int y'' / real_of_int x'') - arctan (Y / X)\<bar> \<le> 1 / real_of_int x''"
    using arctan_lipschitz [of "real_of_int y'' / real_of_int x''" "Y / X"] rp by linarith
  from units_perturb [OF xpos(3) this]
  have "\<bar>arctan (real_of_int y'' / real_of_int x'') * 11796480 / pi
        - arctan (Y / X) * 11796480 / pi\<bar> \<le> 7 / 1000"
    by (simp add: left_diff_distrib diff_divide_distrib)
  then have P: "\<bar>ang_units x'' y'' - (ang_units x y - real_of_int d * alpha (n + 1))\<bar> \<le> 7 / 1000"
    by (simp only: angI ang_units_def)
  \<comment> \<open>conclusions\<close>
  have A': "\<bar>ang_units x'' y''\<bar> \<le> pol_bound (Suc n)"
    using P I by linarith
  then have "\<bar>arctan (real_of_int y'' / real_of_int x'') * 11796480 / pi\<bar> \<le> 2949120"
    using pb by (simp add: ang_units_def)
  then have "\<bar>real_of_int y'' / real_of_int x''\<bar> \<le> 1" by (rule arctan_unit_le)
  then have "\<bar>real_of_int y''\<bar> \<le> real_of_int x''"
    using xpos(2) by (simp add: field_simps)
  then have yx': "\<bar>y''\<bar> \<le> x''" by linarith
  have "(ang_units x'' y'' + real_of_int (\<theta> + d * a)) - (ang_units x y + real_of_int \<theta>)
      = (ang_units x'' y'' - (ang_units x y - real_of_int d * alpha (n + 1)))
        + real_of_int d * (real_of_int a - alpha (n + 1))"
    by (simp add: algebra_simps)
  moreover have "\<bar>real_of_int d * (real_of_int a - alpha (n + 1))\<bar> \<le> cordic_eps ! n"
    using ae dr by (auto simp: abs_mult)
  ultimately have Psi: "\<bar>(ang_units x'' y'' + real_of_int (\<theta> + d * a))
      - (ang_units x y + real_of_int \<theta>)\<bar> \<le> cordic_eps ! n + 7 / 1000"
    using P by linarith
  from xx yx' nb' A' Psi show ?thesis
    by (simp only: res z'_def)
qed

section \<open>The vectoring loop as a fold\<close>

lemma polarize_loop_step:
  assumes "i < 23" "b = 2 ^ (i - 1)"
  shows "polarize_loop i b s = polarize_loop (i + 1) (b * 2) (micro_polarize i s)"
proof (cases s)
  case (fields x y theta)
  show ?thesis unfolding fields
    using assms
    by (subst polarize_loop.simps)
      (simp add: micro_polarize_def PVG_FT_TRIG_MAX_ITERS_def Let_def)
qed

lemma polarize_loop_fold:
  assumes "1 \<le> i" "i \<le> 23" "b = 2 ^ (i - 1)"
  shows "polarize_loop i b s = foldl (\<lambda>s i. micro_polarize i s) s [i..<23]"
  using assms
proof (induction "23 - i" arbitrary: i b s)
  case 0
  then have "i = 23" by simp
  then show ?case
    by (cases s) (simp add: polarize_loop.simps PVG_FT_TRIG_MAX_ITERS_def)
next
  case (Suc n)
  then have lt: "i < 23" by simp
  have b2: "b * 2 = 2 ^ (i + 1 - 1)"
    using Suc.prems by (cases i) simp_all
  have "polarize_loop i b s = polarize_loop (i + 1) (b * 2) (micro_polarize i s)"
    using lt Suc.prems(3) by (rule polarize_loop_step)
  also have "\<dots> = foldl (\<lambda>s i. micro_polarize i s) (micro_polarize i s) [i + 1..<23]"
    using Suc.hyps(2) lt b2 by (intro Suc.hyps(1)) simp_all
  also have "\<dots> = foldl (\<lambda>s i. micro_polarize i s) s [i..<23]"
    using lt by (simp add: upt_conv_Cons)
  finally show ?case .
qed

lemma ang_units_sector:
  assumes "0 < x" "\<bar>y\<bar> \<le> x"
  shows "\<bar>ang_units x y\<bar> \<le> 2949120"
    and "0 \<le> y \<Longrightarrow> 0 \<le> ang_units x y"
    and "y < 0 \<Longrightarrow> ang_units x y < 0"
proof -
  define u where "u = real_of_int y / real_of_int x"
  have u: "- 1 \<le> u" "u \<le> 1"
    using assms by (simp_all add: u_def field_simps abs_le_iff)
  then have "arctan (- 1) \<le> arctan u" "arctan u \<le> arctan 1"
    by (simp_all only: arctan_le_iff)
  then have "\<bar>arctan u\<bar> \<le> pi / 4"
    by (simp add: arctan_one arctan_minus abs_le_iff)
  then have "\<bar>arctan u\<bar> * (11796480 / pi) \<le> pi / 4 * (11796480 / pi)"
    by (intro mult_right_mono) simp_all
  then show "\<bar>ang_units x y\<bar> \<le> 2949120"
    by (simp add: ang_units_def u_def abs_mult)
  show "0 \<le> ang_units x y" if "0 \<le> y"
    using that assms(1) by (simp add: ang_units_def)
  show "ang_units x y < 0" if "y < 0"
    using that assms(1)
    by (simp add: ang_units_def mult_less_0_iff divide_less_0_iff)
qed

lemma pol_fold:
  fixes x0 y0 t0 :: int
  assumes x0: "536870912 \<le> x0" and y0: "\<bar>y0\<bar> \<le> x0"
    and R: "cmod (Complex (real_of_int x0) (real_of_int y0)) \<le> 1518500250"
    and n: "n \<le> 22"
    and f: "foldl (\<lambda>s i. micro_polarize i s) (x0, y0, t0) [1..<Suc n] = (x, y, \<theta>)"
  shows "536870912 \<le> x \<and> \<bar>y\<bar> \<le> x
      \<and> cmod (Complex (real_of_int x) (real_of_int y)) \<le> gain n * (1518500250 + real n)
      \<and> \<bar>ang_units x y\<bar> \<le> pol_bound n
      \<and> \<bar>(ang_units x y + real_of_int \<theta>) - (ang_units x0 y0 + real_of_int t0)\<bar>
          \<le> eps_sum n + real n * (7 / 1000)"
  using n f
proof (induction n arbitrary: x y \<theta>)
  case 0
  then have s: "x = x0" "y = y0" "\<theta> = t0" by simp_all
  have "\<bar>ang_units x0 y0\<bar> \<le> pol_bound 0"
    using ang_units_sector(1) [of x0 y0] x0 y0 pol_bound_0 by linarith
  then show ?case
    using x0 y0 R by (simp add: s gain_def eps_sum_def)
next
  case (Suc n)
  obtain x1 y1 t1 where s1: "foldl (\<lambda>s i. micro_polarize i s) (x0, y0, t0) [1..<Suc n] = (x1, y1, t1)"
    by (cases "foldl (\<lambda>s i. micro_polarize i s) (x0, y0, t0) [1..<Suc n]")
  have n: "n < 22" using Suc.prems(1) by simp
  then have "n \<le> 22" by simp
  from Suc.IH [OF this s1] have
    x1: "536870912 \<le> x1" and y1: "\<bar>y1\<bar> \<le> x1"
    and nb: "cmod (Complex (real_of_int x1) (real_of_int y1)) \<le> gain n * (1518500250 + real n)"
    and B: "\<bar>ang_units x1 y1\<bar> \<le> pol_bound n"
    and Psi: "\<bar>(ang_units x1 y1 + real_of_int t1) - (ang_units x0 y0 + real_of_int t0)\<bar>
          \<le> eps_sum n + real n * (7 / 1000)"
    by blast+
  have "[1..<Suc (Suc n)] = [1..<Suc n] @ [Suc n]" by simp
  then have "micro_polarize (Suc n) (x1, y1, t1) = (x, y, \<theta>)"
    using Suc.prems(2) s1 by (simp only: foldl_append) simp
  from pol_step [OF n x1 y1 nb B this] have
    st: "x1 \<le> x" "\<bar>y\<bar> \<le> x"
    "cmod (Complex (real_of_int x) (real_of_int y)) \<le> gain (Suc n) * (1518500250 + real (Suc n))"
    "\<bar>ang_units x y\<bar> \<le> pol_bound (Suc n)"
    "\<bar>(ang_units x y + real_of_int \<theta>) - (ang_units x1 y1 + real_of_int t1)\<bar>
         \<le> cordic_eps ! n + 7 / 1000"
    by blast+
  have "real (Suc n) * (7 / 1000) = real n * (7 / 1000) + 7 / 1000"
    by (simp add: distrib_right)
  then have "\<bar>(ang_units x y + real_of_int \<theta>) - (ang_units x0 y0 + real_of_int t0)\<bar>
          \<le> eps_sum (Suc n) + real (Suc n) * (7 / 1000)"
    using st(5) Psi unfolding eps_sum_Suc [OF n] by linarith
  with st x1 show ?case by simp
qed


lemma polarize_loop_accuracy:
  fixes x0 y0 t0 :: int
  assumes x0: "536870912 \<le> x0" and y0: "\<bar>y0\<bar> \<le> x0"
    and R: "cmod (Complex (real_of_int x0) (real_of_int y0)) \<le> 1518500250"
    and f: "polarize_loop 1 1 (x0, y0, t0) = (x, y, \<theta>)"
  shows "\<bar>real_of_int (\<theta> - t0) - ang_units x0 y0\<bar> \<le> 12"
proof -
  have "foldl (\<lambda>s i. micro_polarize i s) (x0, y0, t0) [1..<Suc 22] = (x, y, \<theta>)"
    using f by (subst (asm) polarize_loop_fold) simp_all
  from pol_fold [OF x0 y0 R _ this] have
    "\<bar>ang_units x y\<bar> \<le> pol_bound 22"
    "\<bar>(ang_units x y + real_of_int \<theta>) - (ang_units x0 y0 + real_of_int t0)\<bar>
          \<le> eps_sum 22 + real 22 * (7 / 1000)"
    by simp_all
  then show ?thesis
    unfolding pol_bound_22 eps_sum_22 by (simp add: abs_le_iff; linarith)
qed

lemma abs_le_sq:
  fixes a b :: real
  assumes "\<bar>a\<bar> \<le> b"
  shows "a\<^sup>2 \<le> b\<^sup>2"
proof -
  have "\<bar>a\<bar> \<le> \<bar>b\<bar>" using assms by linarith
  then show ?thesis by (simp only: abs_le_square_iff)
qed

lemma polarize_sector_props:
  assumes b: "\<bar>x\<bar> \<le> 1073741824" "\<bar>y\<bar> \<le> 1073741824"
    and m: "536870912 \<le> max \<bar>x\<bar> \<bar>y\<bar>"
    and s: "polarize_sector (x, y) = (x', y', t0)"
  shows "536870912 \<le> x'" "\<bar>y'\<bar> \<le> x'"
    "cmod (Complex (real_of_int x') (real_of_int y')) \<le> 1518500250"
    "t0 = 0 \<or> t0 = PVG_FT_ANGLE_PI2 \<or> t0 = - PVG_FT_ANGLE_PI2
      \<or> (t0 = PVG_FT_ANGLE_PI \<and> y' < 0) \<or> (t0 = - PVG_FT_ANGLE_PI \<and> 0 \<le> y')"
proof -
  have "in32 (- x)" "in32 (- y)" using b unfolding in32_def by linarith+
  then have w: "wrap32 (- x) = - x" "wrap32 (- y) = - y" by (simp_all add: wrap32_id)
  have "polarize_sector (x, y) =
     (if y > x
      then if y > - x then (y, - x, PVG_FT_ANGLE_PI2)
           else (- x, - y, if y > 0 then PVG_FT_ANGLE_PI else - PVG_FT_ANGLE_PI)
      else if y < - x then (- y, x, - PVG_FT_ANGLE_PI2) else (x, y, 0))"
    unfolding polarize_sector_def by (simp only: prod.case w)
  note c = this [unfolded s]
  show x': "536870912 \<le> x'" using c m by (auto split: if_splits)
  show y': "\<bar>y'\<bar> \<le> x'" using c by (auto split: if_splits)
  show "t0 = 0 \<or> t0 = PVG_FT_ANGLE_PI2 \<or> t0 = - PVG_FT_ANGLE_PI2
      \<or> (t0 = PVG_FT_ANGLE_PI \<and> y' < 0) \<or> (t0 = - PVG_FT_ANGLE_PI \<and> 0 \<le> y')"
    using c by (auto split: if_splits)
  have "x' \<le> 1073741824" using c b by (auto split: if_splits)
  with x' y' have r: "\<bar>real_of_int x'\<bar> \<le> 1073741824" "\<bar>real_of_int y'\<bar> \<le> 1073741824"
    by linarith+
  have "(real_of_int x')\<^sup>2 \<le> 1073741824\<^sup>2"
    by (rule abs_le_sq [OF r(1)])
  moreover have "(real_of_int y')\<^sup>2 \<le> 1073741824\<^sup>2"
    by (rule abs_le_sq [OF r(2)])
  ultimately have "(real_of_int x')\<^sup>2 + (real_of_int y')\<^sup>2 \<le> 1518500250\<^sup>2" by simp
  then have "sqrt ((real_of_int x')\<^sup>2 + (real_of_int y')\<^sup>2) \<le> 1518500250"
    by (intro real_le_lsqrt) simp_all
  then show "cmod (Complex (real_of_int x') (real_of_int y')) \<le> 1518500250"
    by (simp add: cmod_def)
qed

section \<open>Prenormalisation\<close>

lemma to_u32_id: "0 \<le> v \<Longrightarrow> v < 4294967296 \<Longrightarrow> to_u32 v = v"
  by (simp add: to_u32_def)

lemma clz_bounds:
  assumes "0 < m" "m < 4294967296"
  shows "0 \<le> clz m \<and> clz m \<le> 31
    \<and> 2147483648 \<le> m * 2 ^ nat (clz m) \<and> m * 2 ^ nat (clz m) < 4294967296"
proof -
  define n1 where "n1 = (if m \<le> 65535 then 16 else 0::int)"
  define x1 where "x1 = (if m \<le> 65535 then m * 65536 else m)"
  define n2 where "n2 = (if x1 \<le> 16777215 then n1 + 8 else n1)"
  define x2 where "x2 = (if x1 \<le> 16777215 then x1 * 256 else x1)"
  define n3 where "n3 = (if x2 \<le> 268435455 then n2 + 4 else n2)"
  define x3 where "x3 = (if x2 \<le> 268435455 then x2 * 16 else x2)"
  define n4 where "n4 = (if x3 \<le> 1073741823 then n3 + 2 else n3)"
  define x4 where "x4 = (if x3 \<le> 1073741823 then x3 * 4 else x3)"
  define n5 where "n5 = (if x4 \<le> 2147483647 then n4 + 1 else n4)"
  have s1: "x1 = m * 2 ^ nat n1" "65536 \<le> x1" "x1 < 4294967296" "0 \<le> n1" "n1 \<le> 16"
    using assms by (auto simp: n1_def x1_def)
  have s2: "x2 = m * 2 ^ nat n2" "16777216 \<le> x2" "x2 < 4294967296" "0 \<le> n2" "n2 \<le> 24"
    using s1 by (auto simp: n2_def x2_def nat_add_distrib power_add)
  have s3: "x3 = m * 2 ^ nat n3" "268435456 \<le> x3" "x3 < 4294967296" "0 \<le> n3" "n3 \<le> 28"
    using s2 by (auto simp: n3_def x3_def nat_add_distrib power_add)
  have s4: "x4 = m * 2 ^ nat n4" "1073741824 \<le> x4" "x4 < 4294967296" "0 \<le> n4" "n4 \<le> 30"
    using s3 by (auto simp: n4_def x4_def nat_add_distrib power_add)
  have s5: "0 \<le> n5" "n5 \<le> 31" "2147483648 \<le> m * 2 ^ nat n5" "m * 2 ^ nat n5 < 4294967296"
    using s4 by (auto simp: n5_def nat_add_distrib power_add)
  have e1: "(if m \<le> 65535 then (0 + 16, to_u32 (m * 65536)) else (0, m)) = (n1, x1)"
    using assms by (simp add: n1_def x1_def to_u32_id)
  have e2: "(if x1 \<le> 16777215 then (n1 + 8, to_u32 (x1 * 256)) else (n1, x1)) = (n2, x2)"
    using s1 by (simp add: n2_def x2_def to_u32_id)
  have e3: "(if x2 \<le> 268435455 then (n2 + 4, to_u32 (x2 * 16)) else (n2, x2)) = (n3, x3)"
    using s2 by (simp add: n3_def x3_def to_u32_id)
  have e4: "(if x3 \<le> 1073741823 then (n3 + 2, to_u32 (x3 * 4)) else (n3, x3)) = (n4, x4)"
    using s3 by (simp add: n4_def x4_def to_u32_id)
  have "clz m = n5"
    using assms(1) unfolding clz_def Let_def prod.case e1 e2 e3 e4 n5_def by simp
  with s5 show ?thesis by simp
qed

lemma wrap32_u32_mult:
  assumes "in32 (x * k)"
  shows "wrap32 (to_u32 x * k) = x * k"
proof -
  have "(to_u32 x * k + 2147483648) mod 4294967296 = (x * k + 2147483648) mod 4294967296"
    unfolding to_u32_def by (intro mod_add_cong mod_mult_cong) simp_all
  then have "wrap32 (to_u32 x * k) = wrap32 (x * k)"
    by (simp add: wrap32_def)
  with assms show ?thesis by (simp add: wrap32_id)
qed

lemma abs_u32:
  assumes "in32 x"
  shows "to_u32 (PVG_FT_ABS x) = \<bar>x\<bar>"
proof (cases "x = - 2147483648")
  case True
  then show ?thesis by (simp add: PVG_FT_ABS_def wrap32_consts to_u32_def)
next
  case False
  with assms have "in32 (- x)" "0 \<le> \<bar>x\<bar>" "\<bar>x\<bar> < 4294967296"
    unfolding in32_def by linarith+
  then show ?thesis
    by (cases "x < 0") (simp_all add: PVG_FT_ABS_def wrap32_id to_u32_id)
qed

lemma msb_magnitude:
  assumes x: "in32 x" and y: "in32 y" and nz: "x \<noteq> 0 \<or> y \<noteq> 0"
  defines "c \<equiv> clz (to_u32 (PVG_FT_ABS x OR PVG_FT_ABS y))"
  shows "0 \<le> c \<and> c \<le> 31 \<and> 2147483648 \<le> max \<bar>x\<bar> \<bar>y\<bar> * 2 ^ nat c
     \<and> max \<bar>x\<bar> \<bar>y\<bar> * 2 ^ nat c < 4294967296"
proof -
  define m where "m = \<bar>x\<bar> OR \<bar>y\<bar>"
  define A where "A = max \<bar>x\<bar> \<bar>y\<bar>"
  have tb: "to_u32 v = take_bit 32 v" for v
    by (simp add: to_u32_def take_bit_eq_mod)
  have u: "to_u32 (PVG_FT_ABS x OR PVG_FT_ABS y) = m"
    unfolding m_def abs_u32 [OF x, symmetric] abs_u32 [OF y, symmetric]
    by (simp only: tb take_bit_or)
  have "\<bar>x\<bar> < 4294967296" "\<bar>y\<bar> < 4294967296"
    using x y unfolding in32_def by linarith+
  then have b: "\<bar>x\<bar> < 2 ^ 32" "\<bar>y\<bar> < 2 ^ 32"
    by simp_all
  have mA: "A \<le> m"
    using or_greater_eq [of "\<bar>y\<bar>" "\<bar>x\<bar>"] or_greater_eq [of "\<bar>x\<bar>" "\<bar>y\<bar>"]
    by (simp add: A_def m_def or.commute)
  have A0: "0 < A" using nz by (auto simp: A_def)
  have m32: "m < 2 ^ 32" unfolding m_def using b by (intro OR_upper) simp_all
  then have mb: "0 < m" "m < 4294967296" using mA A0 by simp_all
  from clz_bounds [OF mb] have c: "0 \<le> c" "c \<le> 31"
    and lo: "2147483648 \<le> m * 2 ^ nat c" and hi: "m * 2 ^ nat c < 4294967296"
    unfolding c_def u by simp_all
  have p: "(2::int) ^ 31 = 2 ^ (31 - nat c) * 2 ^ nat c"
    using c by (simp flip: power_add)
  have "A * 2 ^ nat c \<le> m * 2 ^ nat c"
    using mA by (intro mult_right_mono) simp_all
  with hi have Ahi: "A * 2 ^ nat c < 4294967296" by linarith
  have Alo: "2147483648 \<le> A * 2 ^ nat c"
  proof (rule ccontr)
    assume "\<not> 2147483648 \<le> A * 2 ^ nat c"
    then have "A * 2 ^ nat c < 2 ^ (31 - nat c) * 2 ^ nat c"
      unfolding p [symmetric] by simp
    then have "A < 2 ^ (31 - nat c)" by simp
    then have "\<bar>x\<bar> < 2 ^ (31 - nat c)" "\<bar>y\<bar> < 2 ^ (31 - nat c)"
      by (simp_all add: A_def)
    then have "m < 2 ^ (31 - nat c)"
      unfolding m_def by (intro OR_upper) simp_all
    then have "m * 2 ^ nat c < 2 ^ (31 - nat c) * 2 ^ nat c" by simp
    with lo show False unfolding p [symmetric] by simp
  qed
  from c Alo Ahi show ?thesis by (simp add: A_def)
qed

section \<open>The range of the polarized angle\<close>

lemma prenorm_cases:
  "ft_trig_prenorm \<lparr>vec_x = x, vec_y = y\<rparr> =
     (let c = clz (to_u32 (PVG_FT_ABS x OR PVG_FT_ABS y))
      in if 2 \<le> c
         then (\<lparr>vec_x = wrap32 (to_u32 x * 2 ^ nat (c - 2)),
                vec_y = wrap32 (to_u32 y * 2 ^ nat (c - 2))\<rparr>, c - 2)
         else (\<lparr>vec_x = x div 2 ^ nat (2 - c), vec_y = y div 2 ^ nat (2 - c)\<rparr>, c - 2))"
  by (simp add: ft_trig_prenorm_def PVG_FT_MSB_def PVG_FT_TRIG_SAFE_MSB_def Let_def)

lemma half_range:
  assumes "in32 x" and "2 \<le> k"
  shows "\<bar>x div k\<bar> \<le> 1073741824"
proof -
  have k: "0 < k" using assms(2) by simp
  have "- 2147483648 \<le> x" "x \<le> 2147483647" using assms(1) by (simp_all add: in32_def)
  then have "- 2147483648 div k \<le> x div k" "x div k \<le> 2147483647 div k"
    using k by (simp_all add: zdiv_mono1)
  moreover have "(2147483647::int) div k \<le> 2147483647 div 2"
    using assms(2) by (intro zdiv_mono2) simp_all
  moreover have "(- 2147483648::int) div 2 \<le> - 2147483648 div k"
    using assms(2) by (intro zdiv_mono2_neg) simp_all
  ultimately show ?thesis by simp
qed

lemma prenorm_range:
  assumes x: "in32 x" and y: "in32 y" and nz: "x \<noteq> 0 \<or> y \<noteq> 0"
  defines "v \<equiv> fst (ft_trig_prenorm \<lparr>vec_x = x, vec_y = y\<rparr>)"
  shows "\<bar>vec_x v\<bar> \<le> 1073741824 \<and> \<bar>vec_y v\<bar> \<le> 1073741824
     \<and> 536870912 \<le> max \<bar>vec_x v\<bar> \<bar>vec_y v\<bar>"
proof -
  define c where "c = clz (to_u32 (PVG_FT_ABS x OR PVG_FT_ABS y))"
  define A where "A = max \<bar>x\<bar> \<bar>y\<bar>"
  from msb_magnitude [OF x y nz] have c: "0 \<le> c" "c \<le> 31"
    and lo: "2147483648 \<le> A * 2 ^ nat c" and hi: "A * 2 ^ nat c < 4294967296"
    unfolding c_def A_def by simp_all
  have Ax: "\<bar>x\<bar> \<le> A" "\<bar>y\<bar> \<le> A" "A = \<bar>x\<bar> \<or> A = \<bar>y\<bar>"
    by (auto simp: A_def)
  show ?thesis
  proof (cases "2 \<le> c")
    case True
    define K :: int where "K = 2 ^ nat (c - 2)"
    have K: "0 < K" by (simp add: K_def)
    have "nat c = nat (c - 2) + 2" using True by simp
    then have "(2::int) ^ nat c = 4 * K" by (simp add: K_def power_add)
    with lo hi have AK: "536870912 \<le> A * K" "A * K < 1073741824" by simp_all
    have "\<bar>x\<bar> * K \<le> A * K" "\<bar>y\<bar> * K \<le> A * K"
      using Ax K by (simp_all add: mult_right_mono)
    then have b: "\<bar>x * K\<bar> \<le> A * K" "\<bar>y * K\<bar> \<le> A * K"
      using K by (simp_all add: abs_mult)
    with AK have "in32 (x * K)" "in32 (y * K)"
      unfolding in32_def by linarith+
    then have w: "wrap32 (to_u32 x * K) = x * K" "wrap32 (to_u32 y * K) = y * K"
      by (simp_all add: wrap32_u32_mult)
    have v: "vec_x v = x * K" "vec_y v = y * K"
      using True w by (simp_all add: v_def prenorm_cases c_def [symmetric] K_def [symmetric])
    have "A * K = \<bar>x * K\<bar> \<or> A * K = \<bar>y * K\<bar>"
      using Ax(3) K by (auto simp: abs_mult)
    then have "A * K \<le> max \<bar>x * K\<bar> \<bar>y * K\<bar>" by auto
    with b AK show ?thesis unfolding v by linarith
  next
    case False
    with c have c01: "c = 0 \<or> c = 1" by linarith
    have Ale: "A \<le> 2147483648" using x y unfolding A_def in32_def by auto
    from c01 show ?thesis
    proof
      assume c0: "c = 0"
      then have v: "vec_x v = x div 4" "vec_y v = y div 4"
        by (simp_all add: v_def prenorm_cases c_def [symmetric])
      from lo c0 Ale have "A = 2147483648" by simp
      with Ax(3) x y have "x = - 2147483648 \<or> y = - 2147483648"
        unfolding in32_def by linarith
      then have "vec_x v = - 536870912 \<or> vec_y v = - 536870912"
        unfolding v by auto
      then have "536870912 \<le> max \<bar>vec_x v\<bar> \<bar>vec_y v\<bar>" by auto
      with half_range [OF x, of 4] half_range [OF y, of 4] show ?thesis
        unfolding v by simp
    next
      assume c1: "c = 1"
      then have v: "vec_x v = x div 2" "vec_y v = y div 2"
        by (simp_all add: v_def prenorm_cases c_def [symmetric])
      from lo hi c1 have A: "1073741824 \<le> A" by simp
      with Ax(3) have "1073741824 \<le> x \<or> x \<le> - 1073741824
          \<or> 1073741824 \<le> y \<or> y \<le> - 1073741824" by linarith
      then have "536870912 \<le> x div 2 \<or> x div 2 \<le> - 536870912
          \<or> 536870912 \<le> y div 2 \<or> y div 2 \<le> - 536870912" by linarith
      then have "536870912 \<le> max \<bar>vec_x v\<bar> \<bar>vec_y v\<bar>" unfolding v by linarith
      with half_range [OF x, of 2] half_range [OF y, of 2] show ?thesis
        unfolding v by simp
    qed
  qed
qed

lemma round_theta_range:
  assumes "- 11796495 \<le> theta" "theta \<le> 11796495"
  shows "- 11796480 \<le> round_theta theta \<and> round_theta theta \<le> 11796480"
proof -
  have r: "0 \<le> (t + 16) div 32 \<and> (t + 16) div 32 \<le> 368640"
    if "0 \<le> t" "t \<le> 11796495" for t :: int
  proof -
    have "(t + 16) div 32 \<le> (11796495 + 16) div 32"
      using that by (intro zdiv_mono1) simp_all
    moreover have "0 \<le> (t + 16) div 32"
      using that by (simp add: pos_imp_zdiv_nonneg_iff)
    ultimately show ?thesis by simp
  qed
  show ?thesis
  proof (cases "0 \<le> theta")
    case True
    with r [of theta] assms show ?thesis
      by (simp add: round_theta_def PAD_ROUND_32)
  next
    case False
    with r [of "- theta"] assms show ?thesis
      by (simp add: round_theta_def PAD_ROUND_32)
  qed
qed

lemma pseudo_polarize_range:
  assumes b: "\<bar>vec_x v\<bar> \<le> 1073741824" "\<bar>vec_y v\<bar> \<le> 1073741824"
    and m: "536870912 \<le> max \<bar>vec_x v\<bar> \<bar>vec_y v\<bar>"
  shows "- 11796480 \<le> vec_y (ft_trig_pseudo_polarize v)
       \<and> vec_y (ft_trig_pseudo_polarize v) \<le> 11796480"
proof -
  obtain x' y' t0 where s: "polarize_sector (vec_x v, vec_y v) = (x', y', t0)"
    by (cases "polarize_sector (vec_x v, vec_y v)")
  obtain x y \<theta> where f: "polarize_loop 1 1 (x', y', t0) = (x, y, \<theta>)"
    by (cases "polarize_loop 1 1 (x', y', t0)")
  note p = polarize_sector_props [OF b m s]
  from polarize_loop_accuracy [OF p(1) p(2) p(3) f]
  have acc: "\<bar>real_of_int (\<theta> - t0) - ang_units x' y'\<bar> \<le> 12" .
  have x'0: "0 < x'" using p(1) by simp
  note a = ang_units_sector [OF x'0 p(2)]
  have "- 11796480 \<le> real_of_int t0 + ang_units x' y' \<and> real_of_int t0 + ang_units x' y' \<le> 11796480"
    using p(4) a by (elim disjE conjE) (simp_all add: angle_defs abs_le_iff; linarith)+
  with acc have "- 11796492 \<le> real_of_int \<theta>" "real_of_int \<theta> \<le> 11796492"
    by (simp_all add: abs_le_iff; linarith)+
  then have "- 11796495 \<le> \<theta>" "\<theta> \<le> 11796495" by linarith+
  then have "- 11796480 \<le> round_theta \<theta> \<and> round_theta \<theta> \<le> 11796480"
    by (rule round_theta_range)
  then show ?thesis using f by (simp add: ft_trig_pseudo_polarize_def s)
qed

theorem polarized_angle_range_counterexample:
  "PVG_FT_Atan2 (- 3) 0 = - 11796480
   \<and> snd (PVG_FT_Vector_Polarize \<lparr>vec_x = - 3, vec_y = 0\<rparr> (0, 0)) = - 11796480"
  by code_simp

text \<open>
  C3: for every 32-bit input vector, the angle returned by \<open>PVG_FT_Atan2\<close> lies in
  the closed interval from \<open>- PVG_FT_ANGLE_PI\<close> to \<open>PVG_FT_ANGLE_PI\<close>, and for
  every non-zero one so does the angle output of \<open>PVG_FT_Vector_Polarize\<close>.  The
  lower end is attained (at \<open>(- 3, 0)\<close>), so the interval is not open below.
\<close>

theorem polarized_angle_range:
  assumes "in32 dx" "in32 dy"
  shows "- PVG_FT_ANGLE_PI \<le> PVG_FT_Atan2 dx dy \<and> PVG_FT_Atan2 dx dy \<le> PVG_FT_ANGLE_PI
    \<and> (dx \<noteq> 0 \<or> dy \<noteq> 0 \<longrightarrow>
         - PVG_FT_ANGLE_PI \<le> snd (PVG_FT_Vector_Polarize \<lparr>vec_x = dx, vec_y = dy\<rparr> out)
         \<and> snd (PVG_FT_Vector_Polarize \<lparr>vec_x = dx, vec_y = dy\<rparr> out) \<le> PVG_FT_ANGLE_PI)"
proof (cases "dx = 0 \<and> dy = 0")
  case True
  then show ?thesis by (simp add: PVG_FT_Atan2_def angle_defs)
next
  case False
  then have nz: "dx \<noteq> 0 \<or> dy \<noteq> 0" by simp
  define v where "v = fst (ft_trig_prenorm \<lparr>vec_x = dx, vec_y = dy\<rparr>)"
  from prenorm_range [OF assms nz]
  have r: "\<bar>vec_x v\<bar> \<le> 1073741824" "\<bar>vec_y v\<bar> \<le> 1073741824"
    "536870912 \<le> max \<bar>vec_x v\<bar> \<bar>vec_y v\<bar>"
    unfolding v_def by simp_all
  have a: "PVG_FT_Atan2 dx dy = vec_y (ft_trig_pseudo_polarize v)"
    using False by (auto simp: PVG_FT_Atan2_def v_def)
  have p: "snd (PVG_FT_Vector_Polarize \<lparr>vec_x = dx, vec_y = dy\<rparr> out)
      = vec_y (ft_trig_pseudo_polarize v)"
    using False by (auto simp: PVG_FT_Vector_Polarize_def v_def case_prod_unfold Let_def)
  from pseudo_polarize_range [OF r] show ?thesis
    unfolding a p by (simp add: angle_defs)
qed

theorem polarized_angle_range_witness:
  "PVG_FT_Atan2 (- 3) 0 = - PVG_FT_ANGLE_PI
   \<and> snd (PVG_FT_Vector_Polarize \<lparr>vec_x = 0, vec_y = 7\<rparr> (0, 0)) \<le> PVG_FT_ANGLE_PI
   \<and> - PVG_FT_ANGLE_PI \<le> snd (PVG_FT_Vector_Polarize \<lparr>vec_x = 0, vec_y = 7\<rparr> (0, 0))"
proof -
  have h: "in32 0" "in32 7" by (simp_all add: in32_def)
  have "PVG_FT_Atan2 (- 3) 0 = - PVG_FT_ANGLE_PI" by code_simp
  then show ?thesis using polarized_angle_range [OF h, of "(0, 0)"] by simp
qed

section \<open>The downscaling and the polar form of a vector\<close>




section \<open>The pseudo-rotation of a vector\<close>






section \<open>From polar coordinates\<close>



section \<open>The length reached by the vectoring loop\<close>






section \<open>To polar coordinates\<close>



section \<open>The round trip through polar coordinates\<close>






end
